theory Spec2Isabelle
  imports Complex_Main "HOL-Library.AList" "HOL-Library.Extended_Nat"
begin

section \<open>Data model (enhanced-graph-service)\<close>

text \<open>
  The connection type enumeration, the edge payload \<open>ConnectionInfo\<close> and the result of a
  path query, as the service declares them. A JavaScript \<open>Map\<close> and the outer
  \<open>Record<string, Map>\<close> are association lists in insertion order: iteration
  (\<open>entries()\<close>, \<open>Object.entries\<close>) walks the list from the front, \<open>get\<close>/\<open>has\<close> is
  \<open>map_of\<close>, and \<open>set\<close> is \<open>AList.update\<close> (an existing key keeps its place, a new one
  goes to the end). Node identifiers are document paths, so no key is an integer-like
  string that JavaScript would enumerate out of insertion order.
\<close>

datatype ConnectionType = DIRECT | BACKLINK | TAG | EMBEDDED

record Metadata =
  title :: "string option"
  tags :: "string list option"
  excerpt :: "string option"

record ConnectionInfo =
  type :: ConnectionType
  commonTags :: "string list option"
  metadata :: "Metadata option"

text \<open>A Direct edge without tags or metadata, for examples.\<close>

definition directEdge :: ConnectionInfo where
  "directEdge = \<lparr> type = DIRECT, commonTags = None, metadata = None \<rparr>"

type_synonym AdjacencyMap = "(string \<times> ConnectionInfo) list"

type_synonym EnhancedGraph = "(string \<times> AdjacencyMap) list"

record PathResult =
  distance :: int
  path :: "string list"
  connectionTypes :: "ConnectionInfo list"

datatype AlgorithmPreference = PrefAuto | PrefOriginal | PrefOptimized | PrefBidirectional

text \<open>
  The settings object, with the options the service reads. \<open>maxPathLength\<close> is a natural
  number: the settings tab offers 2 to 20, the default is 10.
\<close>

record Settings =
  includeTagsInAnalysis :: bool
  includeEmbeddedLinks :: bool
  maxPathLength :: nat
  parallelProcessing :: bool
  cacheGraphStructure :: bool
  includeBacklinks :: bool
  algorithmPreference :: AlgorithmPreference

definition DEFAULT_SETTINGS :: Settings where
  "DEFAULT_SETTINGS = \<lparr> includeTagsInAnalysis = True, includeEmbeddedLinks = True,
     maxPathLength = 10, parallelProcessing = True, cacheGraphStructure = True,
     includeBacklinks = True, algorithmPreference = PrefAuto \<rparr>"

text \<open>\<open>graph[node] || new Map()\<close>: a missing entry reads as no outgoing edges.\<close>

definition neighborsOf :: "EnhancedGraph \<Rightarrow> string \<Rightarrow> AdjacencyMap" where
  "neighborsOf graph node = (case map_of graph node of None \<Rightarrow> [] | Some edges \<Rightarrow> edges)"

definition noPath :: PathResult where
  "noPath = \<lparr> distance = - 1, path = [], connectionTypes = [] \<rparr>"

section \<open>Single-source breadth-first search (findShortestPathOriginal)\<close>

record QueueEntry =
  q_node :: string
  q_distance :: nat
  q_path :: "string list"
  q_connectionTypes :: "ConnectionInfo list"

text \<open>
  The inner \<open>for\<close> loop over \<open>neighbors.entries()\<close>: every neighbour not yet visited is
  marked visited and pushed with its own path and connection-type sequence.
\<close>

fun enqueueNeighbors ::
  "QueueEntry \<Rightarrow> AdjacencyMap \<Rightarrow> string set \<times> QueueEntry list \<Rightarrow> string set \<times> QueueEntry list"
where
  "enqueueNeighbors e [] (visited, queue) = (visited, queue)"
| "enqueueNeighbors e ((neighbor, connectionInfo) # rest) (visited, queue) =
     (if neighbor \<notin> visited
      then enqueueNeighbors e rest
             (insert neighbor visited,
              queue @ [\<lparr> q_node = neighbor, q_distance = q_distance e + 1,
                         q_path = q_path e @ [neighbor],
                         q_connectionTypes = q_connectionTypes e @ [connectionInfo] \<rparr>])
      else enqueueNeighbors e rest (visited, queue))"

text \<open>All nodes that occur as an edge target: the nodes the search can ever mark.\<close>

definition allTargets :: "EnhancedGraph \<Rightarrow> string set" where
  "allTargets graph = (\<Union>(source, edges) \<in> set graph. fst ` set edges)"

lemma finite_allTargets: "finite (allTargets graph)"
  by (auto simp: allTargets_def)

lemma neighborsOf_allTargets: "fst ` set (neighborsOf graph node) \<subseteq> allTargets graph"
proof
  fix n assume "n \<in> fst ` set (neighborsOf graph node)"
  then obtain edges where "map_of graph node = Some edges" and "n \<in> fst ` set edges"
    by (cases "map_of graph node") (simp_all add: neighborsOf_def)
  then have "(node, edges) \<in> set graph" and "n \<in> fst ` set edges"
    by (auto dest: map_of_SomeD)
  then show "n \<in> allTargets graph"
    unfolding allTargets_def by blast
qed

lemma enqueueNeighbors_measure:
  assumes "enqueueNeighbors e ns (visited, queue) = (visited', queue')"
    and "fst ` set ns \<subseteq> U" and "finite U"
  shows "card (U - visited') + length queue' = card (U - visited) + length queue"
  using assms
proof (induction ns arbitrary: visited queue)
  case Nil
  then show ?case by simp
next
  case (Cons a ns)
  obtain neighbor ci where a: "a = (neighbor, ci)" by (cases a)
  show ?case
  proof (cases "neighbor \<in> visited")
    case True
    with Cons a show ?thesis by simp
  next
    case False
    let ?q = "queue @ [\<lparr> q_node = neighbor, q_distance = q_distance e + 1,
                         q_path = q_path e @ [neighbor],
                         q_connectionTypes = q_connectionTypes e @ [ci] \<rparr>]"
    from Cons.prems a False
    have step: "enqueueNeighbors e ns (insert neighbor visited, ?q) = (visited', queue')"
      by simp
    from Cons.prems a have sub: "fst ` set ns \<subseteq> U" and inU: "neighbor \<in> U" by auto
    have "card (U - visited') + length queue'
        = card (U - insert neighbor visited) + length ?q"
      by (rule Cons.IH [OF step sub Cons.prems(3)])
    moreover have "card (U - insert neighbor visited) + 1 = card (U - visited)"
    proof -
      have eq: "U - insert neighbor visited = (U - visited) - {neighbor}" by auto
      have mem: "neighbor \<in> U - visited" using inU False by simp
      have fin: "finite (U - visited)" using Cons.prems(3) by simp
      from card_Suc_Diff1 [OF fin mem] show ?thesis by (simp add: eq)
    qed
    ultimately show ?thesis by simp
  qed
qed

text \<open>
  The \<open>while (queue.length > 0)\<close> loop. The bound on the distance is tested before the
  test for the end node, as in the source.
\<close>

function bfsLoop ::
  "EnhancedGraph \<Rightarrow> nat \<Rightarrow> string \<Rightarrow> string set \<Rightarrow> QueueEntry list \<Rightarrow> PathResult"
where
  "bfsLoop graph maxLen end visited [] = noPath"
| "bfsLoop graph maxLen end visited (e # queue) =
     (if q_distance e \<ge> maxLen then bfsLoop graph maxLen end visited queue
      else if q_node e = end
      then \<lparr> distance = int (q_distance e), path = q_path e,
             connectionTypes = q_connectionTypes e \<rparr>
      else (case enqueueNeighbors e (neighborsOf graph (q_node e)) (visited, queue) of
              (visited', queue') \<Rightarrow> bfsLoop graph maxLen end visited' queue'))"
  by pat_completeness auto
termination
proof (relation "measure (\<lambda>(graph, maxLen, end, visited, queue).
                   card (allTargets graph - visited) + length queue)", goal_cases)
  case 1
  then show ?case by simp
next
  case (2 graph maxLen "end" visited e queue)
  then show ?case by simp
next
  case (3 graph maxLen endn visited e queue xa y)
  then have "enqueueNeighbors e (neighborsOf graph (q_node e)) (visited, queue) = (xa, y)"
    by simp
  from enqueueNeighbors_measure [OF this neighborsOf_allTargets finite_allTargets]
  show ?case by simp
qed

definition findShortestPathOriginal ::
  "Settings \<Rightarrow> EnhancedGraph \<Rightarrow> string \<Rightarrow> string \<Rightarrow> PathResult"
where
  "findShortestPathOriginal settings graph start end =
     bfsLoop graph (maxPathLength settings) end {start}
       [\<lparr> q_node = start, q_distance = 0, q_path = [start], q_connectionTypes = [] \<rparr>]"

section \<open>Bidirectional breadth-first search (findShortestPathBidirectional)\<close>

text \<open>
  An entry of \<open>forwardVisited\<close>/\<open>backwardVisited\<close>: predecessor, distance from the root of
  that search, and the payload of the edge that reached the node (\<open>null\<close> at the root).
\<close>

record VisitInfo =
  v_prev :: string
  v_distance :: nat
  v_connectionInfo :: "ConnectionInfo option"

type_synonym VisitedMap = "(string \<times> VisitInfo) list"

text \<open>
  The state of the search loop. The source keeps \<open>meetingNode\<close> and \<open>shortestDistance\<close> in
  two variables that it only ever sets together; \<open>meeting\<close> holds the pair, and \<open>None\<close> is
  the initial \<open>(null, Infinity)\<close>.
\<close>

record SearchState =
  forwardVisited :: VisitedMap
  forwardQueue :: "string list"
  backwardVisited :: VisitedMap
  backwardQueue :: "string list"
  meeting :: "(string \<times> nat) option"

definition meetingNode :: "SearchState \<Rightarrow> string option" where
  "meetingNode s = map_option fst (meeting s)"

definition shortestDistance :: "SearchState \<Rightarrow> enat" where
  "shortestDistance s = (case meeting s of None \<Rightarrow> \<infinity> | Some (m, d) \<Rightarrow> enat d)"

text \<open>The meeting-point test made when \<open>neighbor\<close> has just been visited by one search.\<close>

definition checkMeeting :: "VisitedMap \<Rightarrow> string \<Rightarrow> nat \<Rightarrow> SearchState \<Rightarrow> SearchState" where
  "checkMeeting otherVisited neighbor nodeDistance s =
     (case map_of otherVisited neighbor of
        None \<Rightarrow> s
      | Some other \<Rightarrow>
          (let totalDistance = nodeDistance + 1 + v_distance other
           in if enat totalDistance < shortestDistance s
              then s\<lparr> meeting := Some (neighbor, totalDistance) \<rparr>
              else s))"

fun forwardNeighbors :: "string \<Rightarrow> VisitInfo \<Rightarrow> AdjacencyMap \<Rightarrow> SearchState \<Rightarrow> SearchState" where
  "forwardNeighbors node nodeInfo [] s = s"
| "forwardNeighbors node nodeInfo ((neighbor, connectionInfo) # rest) s =
     (if map_of (forwardVisited s) neighbor = None
      then forwardNeighbors node nodeInfo rest
             (checkMeeting (backwardVisited s) neighbor (v_distance nodeInfo)
                (s\<lparr> forwardVisited :=
                       AList.update neighbor
                         \<lparr> v_prev = node, v_distance = v_distance nodeInfo + 1,
                           v_connectionInfo = Some connectionInfo \<rparr> (forwardVisited s),
                     forwardQueue := forwardQueue s @ [neighbor] \<rparr>))
      else forwardNeighbors node nodeInfo rest s)"

text \<open>
  One level of the forward search: \<open>levelSize\<close> nodes are shifted off the queue. \<open>None\<close>
  stands for the \<open>TypeError\<close> of reading \<open>.distance\<close> of a node that has no entry.
\<close>

fun forwardLevel :: "EnhancedGraph \<Rightarrow> nat \<Rightarrow> nat \<Rightarrow> SearchState \<Rightarrow> SearchState option" where
  "forwardLevel graph maxLen 0 s = Some s"
| "forwardLevel graph maxLen (Suc i) s =
     (case forwardQueue s of
        [] \<Rightarrow> None
      | node # queue \<Rightarrow>
          (case map_of (forwardVisited s) node of
             None \<Rightarrow> None
           | Some nodeInfo \<Rightarrow>
               if v_distance nodeInfo \<ge> maxLen \<or> enat (v_distance nodeInfo) \<ge> shortestDistance s
               then forwardLevel graph maxLen i (s\<lparr> forwardQueue := queue \<rparr>)
               else forwardLevel graph maxLen i
                      (forwardNeighbors node nodeInfo (neighborsOf graph node)
                         (s\<lparr> forwardQueue := queue \<rparr>))))"

text \<open>
  The payload of an edge read against its direction: Direct and Backlink swap, the other
  types stay.
\<close>

definition reverseInfo :: "ConnectionInfo \<Rightarrow> ConnectionInfo" where
  "reverseInfo origInfo =
     origInfo\<lparr> type := (if type origInfo = DIRECT then BACKLINK
                         else if type origInfo = BACKLINK then DIRECT
                         else type origInfo) \<rparr>"

text \<open>
  The backward neighbours of \<open>node\<close>: every source of the graph that has an edge to it,
  collected in a fresh \<open>Map\<close> in the order of \<open>Object.entries(graph)\<close>.
\<close>

fun incomingNeighbors :: "EnhancedGraph \<Rightarrow> string \<Rightarrow> AdjacencyMap \<Rightarrow> AdjacencyMap" where
  "incomingNeighbors [] node neighbors = neighbors"
| "incomingNeighbors ((source, targets) # rest) node neighbors =
     (case map_of targets node of
        None \<Rightarrow> incomingNeighbors rest node neighbors
      | Some origInfo \<Rightarrow>
          incomingNeighbors rest node (AList.update source (reverseInfo origInfo) neighbors))"

fun backwardNeighbors :: "string \<Rightarrow> VisitInfo \<Rightarrow> AdjacencyMap \<Rightarrow> SearchState \<Rightarrow> SearchState" where
  "backwardNeighbors node nodeInfo [] s = s"
| "backwardNeighbors node nodeInfo ((neighbor, connectionInfo) # rest) s =
     (if map_of (backwardVisited s) neighbor = None
      then backwardNeighbors node nodeInfo rest
             (checkMeeting (forwardVisited s) neighbor (v_distance nodeInfo)
                (s\<lparr> backwardVisited :=
                       AList.update neighbor
                         \<lparr> v_prev = node, v_distance = v_distance nodeInfo + 1,
                           v_connectionInfo = Some connectionInfo \<rparr> (backwardVisited s),
                     backwardQueue := backwardQueue s @ [neighbor] \<rparr>))
      else backwardNeighbors node nodeInfo rest s)"

fun backwardLevel :: "EnhancedGraph \<Rightarrow> nat \<Rightarrow> nat \<Rightarrow> SearchState \<Rightarrow> SearchState option" where
  "backwardLevel graph maxLen 0 s = Some s"
| "backwardLevel graph maxLen (Suc i) s =
     (case backwardQueue s of
        [] \<Rightarrow> None
      | node # queue \<Rightarrow>
          (case map_of (backwardVisited s) node of
             None \<Rightarrow> None
           | Some nodeInfo \<Rightarrow>
               if v_distance nodeInfo \<ge> maxLen \<or> enat (v_distance nodeInfo) \<ge> shortestDistance s
               then backwardLevel graph maxLen i (s\<lparr> backwardQueue := queue \<rparr>)
               else backwardLevel graph maxLen i
                      (backwardNeighbors node nodeInfo (incomingNeighbors graph node [])
                         (s\<lparr> backwardQueue := queue \<rparr>))))"

text \<open>
  \<open>visited.get(queue[0] || "")?.distance || Infinity\<close>: an empty queue reads the key
  \<open>""\<close>, and a missing entry or a distance of 0 gives \<open>Infinity\<close>.
\<close>

definition frontDistance :: "VisitedMap \<Rightarrow> string list \<Rightarrow> enat" where
  "frontDistance visited queue =
     (case map_of visited (case queue of [] \<Rightarrow> [] | node # rest \<Rightarrow> node) of
        None \<Rightarrow> \<infinity>
      | Some info \<Rightarrow> if v_distance info = 0 then \<infinity> else enat (v_distance info))"

definition stopSearch :: "SearchState \<Rightarrow> bool" where
  "stopSearch s \<longleftrightarrow>
     meetingNode s \<noteq> None \<and>
     shortestDistance s \<le> min (frontDistance (forwardVisited s) (forwardQueue s))
                               (frontDistance (backwardVisited s) (backwardQueue s))"

text \<open>One round of the \<open>while\<close> loop: the smaller frontier is expanded by a full level.\<close>

definition searchRound :: "EnhancedGraph \<Rightarrow> nat \<Rightarrow> SearchState \<Rightarrow> SearchState option" where
  "searchRound graph maxLen s =
     (if length (forwardQueue s) \<le> length (backwardQueue s)
      then forwardLevel graph maxLen (length (forwardQueue s)) s
      else backwardLevel graph maxLen (length (backwardQueue s)) s)"

definition searchMeasure :: "EnhancedGraph \<Rightarrow> SearchState \<Rightarrow> nat" where
  "searchMeasure graph s =
     card (allTargets graph - fst ` set (forwardVisited s)) + length (forwardQueue s) +
     (card (fst ` set graph - fst ` set (backwardVisited s)) + length (backwardQueue s))"

text \<open>
  Termination of the search: every round shifts at least one node off a queue, and a node
  is pushed only when it is visited for the first time by that search.
\<close>

lemma keys_update_new:
  "map_of al k = None \<Longrightarrow> fst ` set (AList.update k v al) = insert k (fst ` set al)"
  by (induction al) (auto split: if_splits)

lemma card_Diff_insert_new:
  assumes "finite U" "k \<in> U" "k \<notin> A"
  shows "card (U - insert k A) + 1 = card (U - A)"
proof -
  have eq: "U - insert k A = (U - A) - {k}" by auto
  have mem: "k \<in> U - A" using assms by simp
  have fin: "finite (U - A)" using assms by simp
  from card_Suc_Diff1 [OF fin mem] show ?thesis by (simp add: eq)
qed

lemma checkMeeting_fields [simp]:
  "forwardVisited (checkMeeting ov n d s) = forwardVisited s"
  "forwardQueue (checkMeeting ov n d s) = forwardQueue s"
  "backwardVisited (checkMeeting ov n d s) = backwardVisited s"
  "backwardQueue (checkMeeting ov n d s) = backwardQueue s"
  by (simp_all add: checkMeeting_def Let_def split: option.splits)

lemma searchMeasure_checkMeeting [simp]:
  "searchMeasure graph (checkMeeting ov n d s) = searchMeasure graph s"
  by (simp add: searchMeasure_def)

lemma forwardNeighbors_measure:
  "fst ` set ns \<subseteq> allTargets graph \<Longrightarrow>
   searchMeasure graph (forwardNeighbors node nodeInfo ns s) = searchMeasure graph s"
proof (induction ns arbitrary: s)
  case Nil
  then show ?case by simp
next
  case (Cons a ns)
  obtain neighbor ci where a: "a = (neighbor, ci)" by (cases a)
  from Cons.prems a have sub: "fst ` set ns \<subseteq> allTargets graph"
    and inU: "neighbor \<in> allTargets graph" by auto
  show ?case
  proof (cases "map_of (forwardVisited s) neighbor = None")
    case False
    from False a Cons.IH [OF sub] show ?thesis by (simp del: not_None_eq)
  next
    case True
    then have notin: "neighbor \<notin> fst ` set (forwardVisited s)"
      by (simp add: map_of_eq_None_iff)
    from card_Diff_insert_new [OF finite_allTargets inU notin]
    show ?thesis using a True Cons.IH [OF sub]
      by (simp add: searchMeasure_def keys_update_new)
  qed
qed

lemma forwardLevel_measure:
  "forwardLevel graph maxLen i s = Some s' \<Longrightarrow>
   searchMeasure graph s' + i = searchMeasure graph s"
proof (induction i arbitrary: s)
  case 0
  then show ?case by simp
next
  case (Suc i)
  from Suc.prems obtain node queue where q: "forwardQueue s = node # queue"
    by (cases "forwardQueue s") simp_all
  from Suc.prems q obtain nodeInfo where v: "map_of (forwardVisited s) node = Some nodeInfo"
    by (cases "map_of (forwardVisited s) node") simp_all
  let ?s0 = "s\<lparr> forwardQueue := queue \<rparr>"
  have m0: "searchMeasure graph ?s0 + 1 = searchMeasure graph s"
    using q by (simp add: searchMeasure_def)
  show ?case
  proof (cases "v_distance nodeInfo \<ge> maxLen \<or> enat (v_distance nodeInfo) \<ge> shortestDistance s")
    case True
    with Suc.prems q v have "forwardLevel graph maxLen i ?s0 = Some s'" by simp
    from Suc.IH [OF this] m0 show ?thesis by simp
  next
    case False
    with Suc.prems q v
    have "forwardLevel graph maxLen i
            (forwardNeighbors node nodeInfo (neighborsOf graph node) ?s0) = Some s'"
      by simp
    from Suc.IH [OF this] m0 forwardNeighbors_measure [OF neighborsOf_allTargets]
    show ?thesis by simp
  qed
qed

lemma incomingNeighbors_keys:
  "fst ` set (incomingNeighbors graph node acc) \<subseteq> fst ` set graph \<union> fst ` set acc"
proof (induction graph arbitrary: acc)
  case Nil
  then show ?case by simp
next
  case (Cons a graph)
  obtain source targets where a: "a = (source, targets)" by (cases a)
  show ?case
  proof (cases "map_of targets node")
    case None
    with a Cons.IH [of acc] show ?thesis by auto
  next
    case (Some origInfo)
    have "fst ` set (AList.update source (reverseInfo origInfo) acc) \<subseteq> insert source (fst ` set acc)"
      by (induction acc) (auto split: if_splits)
    with a Some Cons.IH [of "AList.update source (reverseInfo origInfo) acc"]
    show ?thesis by auto
  qed
qed

lemma backwardNeighbors_measure:
  "fst ` set ns \<subseteq> fst ` set graph \<Longrightarrow>
   searchMeasure graph (backwardNeighbors node nodeInfo ns s) = searchMeasure graph s"
proof (induction ns arbitrary: s)
  case Nil
  then show ?case by simp
next
  case (Cons a ns)
  obtain neighbor ci where a: "a = (neighbor, ci)" by (cases a)
  from Cons.prems a have sub: "fst ` set ns \<subseteq> fst ` set graph"
    and inU: "neighbor \<in> fst ` set graph" by auto
  show ?case
  proof (cases "map_of (backwardVisited s) neighbor = None")
    case False
    from False a Cons.IH [OF sub] show ?thesis by (simp del: not_None_eq)
  next
    case True
    then have notin: "neighbor \<notin> fst ` set (backwardVisited s)"
      by (simp add: map_of_eq_None_iff)
    have fin: "finite (fst ` set graph)" by simp
    from card_Diff_insert_new [OF fin inU notin]
    show ?thesis using a True Cons.IH [OF sub]
      by (simp add: searchMeasure_def keys_update_new)
  qed
qed

lemma backwardLevel_measure:
  "backwardLevel graph maxLen i s = Some s' \<Longrightarrow>
   searchMeasure graph s' + i = searchMeasure graph s"
proof (induction i arbitrary: s)
  case 0
  then show ?case by simp
next
  case (Suc i)
  from Suc.prems obtain node queue where q: "backwardQueue s = node # queue"
    by (cases "backwardQueue s") simp_all
  from Suc.prems q obtain nodeInfo where v: "map_of (backwardVisited s) node = Some nodeInfo"
    by (cases "map_of (backwardVisited s) node") simp_all
  let ?s0 = "s\<lparr> backwardQueue := queue \<rparr>"
  have m0: "searchMeasure graph ?s0 + 1 = searchMeasure graph s"
    using q by (simp add: searchMeasure_def)
  have sub: "fst ` set (incomingNeighbors graph node []) \<subseteq> fst ` set graph"
    using incomingNeighbors_keys [of graph node "[]"] by simp
  show ?case
  proof (cases "v_distance nodeInfo \<ge> maxLen \<or> enat (v_distance nodeInfo) \<ge> shortestDistance s")
    case True
    with Suc.prems q v have "backwardLevel graph maxLen i ?s0 = Some s'" by simp
    from Suc.IH [OF this] m0 show ?thesis by simp
  next
    case False
    with Suc.prems q v
    have "backwardLevel graph maxLen i
            (backwardNeighbors node nodeInfo (incomingNeighbors graph node []) ?s0) = Some s'"
      by simp
    from Suc.IH [OF this] m0 backwardNeighbors_measure [OF sub]
    show ?thesis by simp
  qed
qed

lemma searchRound_measure:
  assumes "searchRound graph maxLen s = Some s'"
    and "forwardQueue s \<noteq> []" and "backwardQueue s \<noteq> []"
  shows "searchMeasure graph s' < searchMeasure graph s"
proof (cases "length (forwardQueue s) \<le> length (backwardQueue s)")
  case True
  with assms have "forwardLevel graph maxLen (length (forwardQueue s)) s = Some s'"
    by (simp add: searchRound_def)
  from forwardLevel_measure [OF this] assms(2) show ?thesis
    by (cases "forwardQueue s") simp_all
next
  case False
  with assms have "backwardLevel graph maxLen (length (backwardQueue s)) s = Some s'"
    by (simp add: searchRound_def)
  from backwardLevel_measure [OF this] assms(3) show ?thesis
    by (cases "backwardQueue s") simp_all
qed

function searchLoop :: "EnhancedGraph \<Rightarrow> nat \<Rightarrow> SearchState \<Rightarrow> SearchState option" where
  "searchLoop graph maxLen s =
     (if forwardQueue s \<noteq> [] \<and> backwardQueue s \<noteq> []
      then (case searchRound graph maxLen s of
              None \<Rightarrow> None
            | Some s' \<Rightarrow> if stopSearch s' then Some s' else searchLoop graph maxLen s')
      else Some s)"
  by pat_completeness auto
termination
proof (relation "measure (\<lambda>(graph, maxLen, s). searchMeasure graph s)", goal_cases)
  case 1
  then show ?case by simp
next
  case (2 graph maxLen s s')
  then show ?case by (simp add: searchRound_measure)
qed

declare searchLoop.simps [simp del]

text \<open>
  Path reconstruction. Both loops follow the \<open>prev\<close> chain of a visited map and have no
  bound of their own, so they are partial functions: \<open>None\<close> is a walk that never ends.
  The backward loop pushes a node and the payload of the edge that leads to it only while
  the node it has moved to is not the end node.
\<close>

partial_function (option) forwardWalk ::
  "VisitedMap \<Rightarrow> string \<Rightarrow> string \<Rightarrow> string list \<times> ConnectionInfo list
     \<Rightarrow> (string list \<times> ConnectionInfo list) option"
where
  "forwardWalk visited start current acc =
     (if current \<noteq> start \<and> map_of visited current \<noteq> None
      then (let currentInfo = the (map_of visited current)
            in forwardWalk visited start (v_prev currentInfo)
                 (current # fst acc,
                  (case v_connectionInfo currentInfo of
                     Some connectionInfo \<Rightarrow> connectionInfo # snd acc
                   | None \<Rightarrow> snd acc)))
      else Some acc)"

definition fixConnectionInfo :: "ConnectionInfo \<Rightarrow> ConnectionInfo" where
  "fixConnectionInfo connectionInfo =
     (if type connectionInfo = BACKLINK then connectionInfo\<lparr> type := DIRECT \<rparr>
      else if type connectionInfo = DIRECT then connectionInfo\<lparr> type := BACKLINK \<rparr>
      else connectionInfo)"

partial_function (option) backwardWalk ::
  "VisitedMap \<Rightarrow> string \<Rightarrow> string \<Rightarrow> string list \<times> ConnectionInfo list
     \<Rightarrow> (string list \<times> ConnectionInfo list) option"
where
  "backwardWalk visited end current acc =
     (if current \<noteq> end \<and> map_of visited current \<noteq> None
      then (let currentInfo = the (map_of visited current);
                next = v_prev currentInfo
            in if next \<noteq> end
               then backwardWalk visited end next
                      (fst acc @ [next],
                       (case v_connectionInfo currentInfo of
                          Some connectionInfo \<Rightarrow> snd acc @ [fixConnectionInfo connectionInfo]
                        | None \<Rightarrow> snd acc))
               else backwardWalk visited end next acc)
      else Some acc)"

declare forwardWalk.simps [code]
declare backwardWalk.simps [code]

definition combinePaths :: "string \<Rightarrow> string list \<Rightarrow> string list \<Rightarrow> string list" where
  "combinePaths meetingAt forwardPath backwardPath =
     (case backwardPath of
        [] \<Rightarrow> forwardPath
      | first # rest \<Rightarrow>
          if first = meetingAt then forwardPath @ rest else forwardPath @ backwardPath)"

definition reconstructPath ::
  "SearchState \<Rightarrow> string \<Rightarrow> string \<Rightarrow> string \<Rightarrow> nat \<Rightarrow> PathResult option"
where
  "reconstructPath s start end meetingAt totalDistance =
     (case forwardWalk (forwardVisited s) start meetingAt ([], []) of
        None \<Rightarrow> None
      | Some (forwardPath, forwardConnectionTypes) \<Rightarrow>
          (case backwardWalk (backwardVisited s) end meetingAt ([], []) of
             None \<Rightarrow> None
           | Some (backwardPath, backwardConnectionTypes) \<Rightarrow>
               Some \<lparr> distance = int totalDistance,
                      path = combinePaths meetingAt (start # forwardPath) (backwardPath @ [end]),
                      connectionTypes = forwardConnectionTypes @ backwardConnectionTypes \<rparr>))"

definition initialSearchState :: "string \<Rightarrow> string \<Rightarrow> SearchState" where
  "initialSearchState start end =
     \<lparr> forwardVisited = [(start, \<lparr> v_prev = [], v_distance = 0, v_connectionInfo = None \<rparr>)],
       forwardQueue = [start],
       backwardVisited = [(end, \<lparr> v_prev = [], v_distance = 0, v_connectionInfo = None \<rparr>)],
       backwardQueue = [end],
       meeting = None \<rparr>"

text \<open>
  The result is \<open>None\<close> when the call does not return (a \<open>TypeError\<close> in a level, or a
  reconstruction walk that does not end).
\<close>

definition findShortestPathBidirectional ::
  "Settings \<Rightarrow> EnhancedGraph \<Rightarrow> string \<Rightarrow> string \<Rightarrow> PathResult option"
where
  "findShortestPathBidirectional settings graph start end =
     (case searchLoop graph (maxPathLength settings) (initialSearchState start end) of
        None \<Rightarrow> None
      | Some s \<Rightarrow>
          (case meeting s of
             Some (meetingAt, totalDistance) \<Rightarrow> reconstructPath s start end meetingAt totalDistance
           | None \<Rightarrow> Some noPath))"

section \<open>findShortestPath\<close>

definition findShortestPath ::
  "Settings \<Rightarrow> EnhancedGraph \<Rightarrow> string \<Rightarrow> string \<Rightarrow> PathResult option"
where
  "findShortestPath settings graph start end =
     (if start = end then Some \<lparr> distance = 0, path = [start], connectionTypes = [] \<rparr>
      else if map_of graph start = None \<or> map_of graph end = None then Some noPath
      else if length graph < 500 \<or> algorithmPreference settings = PrefOriginal
      then Some (findShortestPathOriginal settings graph start end)
      else findShortestPathBidirectional settings graph start end)"

section \<open>Alternative paths (findAllPaths)\<close>










section \<open>The vault, name resolution and graph construction\<close>

text \<open>
  A markdown file of the vault with what the service reads of it. Reading the text and
  matching the two link patterns are the host's and the language's work and are taken as
  given: \<open>f_wikiMatches\<close> holds the first capture group of each match of the wiki-link
  pattern in the text, in order, \<open>f_embeddedMatches\<close> the same for the embedded-link
  pattern, and \<open>f_readFails\<close> tells that \<open>vault.read\<close> rejects. \<open>f_tags\<close> are the tags of
  the metadata cache, each with its leading \<open>#\<close>.
\<close>

record TFile =
  f_path :: string
  f_basename :: string
  f_readFails :: bool
  f_wikiMatches :: "string list"
  f_embeddedMatches :: "string list"
  f_tags :: "string list"

text \<open>
  \<open>trim\<close> and \<open>toLowerCase\<close> on ASCII strings: \<open>trim\<close> strips space, tab, line feed,
  vertical tab, form feed and carriage return, \<open>toLowerCase\<close> folds the letters A to Z.
  The white space and the letters beyond ASCII that the two functions of the language
  also handle (the no-break space U+00A0, accented capitals) are not modelled: for names
  and link texts that hold such characters the resolution of a link may differ from the
  one modelled here. The properties proved below use of the resolution only that a
  resolved link is a file of the vault.
\<close>

definition isSpace :: "char \<Rightarrow> bool" where
  "isSpace c \<longleftrightarrow> c \<in> set [CHR '' '', CHR 0x09, CHR 0x0A, CHR 0x0B, CHR 0x0C, CHR 0x0D]"

definition trim :: "string \<Rightarrow> string" where
  "trim s = rev (dropWhile isSpace (rev (dropWhile isSpace s)))"

text \<open>\<open>match[1].split('#')[0].split('|')[0].trim()\<close>\<close>

definition linkText :: "string \<Rightarrow> string" where
  "linkText m = trim (takeWhile (\<lambda>c. c \<noteq> CHR ''|'') (takeWhile (\<lambda>c. c \<noteq> CHR ''#'') m))"

definition toLowerCase :: "string \<Rightarrow> string" where
  "toLowerCase s =
     map (\<lambda>c. case map_of (zip ''ABCDEFGHIJKLMNOPQRSTUVWXYZ'' ''abcdefghijklmnopqrstuvwxyz'') c of
                 None \<Rightarrow> c | Some l \<Rightarrow> l) s"

fun startsWith :: "string \<Rightarrow> string \<Rightarrow> bool" where
  "startsWith s [] = True"
| "startsWith [] (c # cs) = False"
| "startsWith (x # xs) (c # cs) = (x = c \<and> startsWith xs cs)"

fun includesStr :: "string \<Rightarrow> string \<Rightarrow> bool" where
  "includesStr [] needle = (needle = [])"
| "includesStr (x # xs) needle = (startsWith (x # xs) needle \<or> includesStr xs needle)"

text \<open>Exact match first, then case-insensitive, then substring; the first file found.\<close>

definition findNoteByName :: "TFile list \<Rightarrow> string \<Rightarrow> TFile option" where
  "findNoteByName files name =
     (case find (\<lambda>file. f_basename file = name) files of
        Some exactMatch \<Rightarrow> Some exactMatch
      | None \<Rightarrow>
          (case find (\<lambda>file. toLowerCase (f_basename file) = toLowerCase name) files of
             Some caseInsensitiveMatch \<Rightarrow> Some caseInsensitiveMatch
           | None \<Rightarrow>
               find (\<lambda>file. includesStr (toLowerCase (f_basename file)) (toLowerCase name)) files))"

definition fileTags :: "TFile \<Rightarrow> string list" where
  "fileTags file = map (drop 1) (f_tags file)"

definition getFileMetadata :: "TFile \<Rightarrow> Metadata" where
  "getFileMetadata file =
     \<lparr> title = Some (f_basename file), tags = Some (fileTags file), excerpt = None \<rparr>"

text \<open>
  \<open>graph[source].set(target, info)\<close>. When the graph has no entry for the source the call
  is a \<open>TypeError\<close>: \<open>Inl\<close> carries the graph as the throw leaves it, \<open>Inr\<close> the graph
  after the write.
\<close>

definition setEdge ::
  "string \<Rightarrow> string \<Rightarrow> ConnectionInfo \<Rightarrow> EnhancedGraph \<Rightarrow> EnhancedGraph + EnhancedGraph"
where
  "setEdge source target info graph =
     (case map_of graph source of
        None \<Rightarrow> Inl graph
      | Some edges \<Rightarrow> Inr (AList.update source (AList.update target info edges) graph))"

text \<open>The loop over the matches of one link pattern, stopped by the first throw.\<close>

fun addLinks ::
  "TFile list \<Rightarrow> ConnectionType \<Rightarrow> string \<Rightarrow> string list \<Rightarrow> EnhancedGraph
     \<Rightarrow> EnhancedGraph + EnhancedGraph"
where
  "addLinks files kind source [] graph = Inr graph"
| "addLinks files kind source (m # rest) graph =
     (if linkText m \<noteq> []
      then (case findNoteByName files (linkText m) of
              Some linkedFile \<Rightarrow>
                (case setEdge source (f_path linkedFile)
                        \<lparr> type = kind, commonTags = None,
                          metadata = Some (getFileMetadata linkedFile) \<rparr> graph of
                   Inl thrown \<Rightarrow> Inl thrown
                 | Inr graph' \<Rightarrow> addLinks files kind source rest graph')
            | None \<Rightarrow> addLinks files kind source rest graph)
      else addLinks files kind source rest graph)"

text \<open>
  \<open>tagMatchCounts\<close>: for every other file with at least one tag in common, the file and
  the common tags, keyed by its path.
\<close>

fun tagMatchCounts ::
  "TFile \<Rightarrow> TFile list \<Rightarrow> (string \<times> TFile \<times> string list) list
     \<Rightarrow> (string \<times> TFile \<times> string list) list"
where
  "tagMatchCounts file [] acc = acc"
| "tagMatchCounts file (otherFile # rest) acc =
     (if f_path otherFile \<noteq> f_path file \<and> fileTags otherFile \<noteq> [] \<and>
         filter (\<lambda>tag. tag \<in> set (fileTags otherFile)) (fileTags file) \<noteq> []
      then tagMatchCounts file rest
             (AList.update (f_path otherFile)
                (otherFile, filter (\<lambda>tag. tag \<in> set (fileTags otherFile)) (fileTags file)) acc)
      else tagMatchCounts file rest acc)"

definition MAX_TAG_MATCHES :: nat where
  "MAX_TAG_MATCHES = 50"

text \<open>The matches in descending order of the number of common tags (a stable sort).\<close>

definition sortedMatches ::
  "TFile \<Rightarrow> TFile list \<Rightarrow> (string \<times> TFile \<times> string list) list"
where
  "sortedMatches file allFiles =
     sort_key (\<lambda>entry. - int (length (snd (snd entry)))) (tagMatchCounts file allFiles [])"

fun addTagEdges ::
  "string \<Rightarrow> (string \<times> TFile \<times> string list) list \<Rightarrow> EnhancedGraph
     \<Rightarrow> EnhancedGraph + EnhancedGraph"
where
  "addTagEdges source [] graph = Inr graph"
| "addTagEdges source ((key, otherFile, common) # rest) graph =
     (case setEdge source (f_path otherFile)
             \<lparr> type = TAG, commonTags = Some common,
               metadata = Some (getFileMetadata otherFile) \<rparr> graph of
        Inl thrown \<Rightarrow> Inl thrown
      | Inr graph' \<Rightarrow> addTagEdges source rest graph')"

text \<open>
  The body of the \<open>try\<close> block of \<open>processFile\<close>. \<open>vaultFiles\<close> is what
  \<open>getMarkdownFiles()\<close> returns to \<open>findNoteByName\<close>, \<open>allFiles\<close> the list the caller
  passes.
\<close>

definition processFileBody ::
  "Settings \<Rightarrow> TFile list \<Rightarrow> TFile \<Rightarrow> TFile list \<Rightarrow> EnhancedGraph
     \<Rightarrow> EnhancedGraph + EnhancedGraph"
where
  "processFileBody settings vaultFiles file allFiles graph =
     (if f_readFails file then Inl graph
      else
        (case addLinks vaultFiles DIRECT (f_path file) (f_wikiMatches file) graph of
           Inl thrown \<Rightarrow> Inl thrown
         | Inr graph1 \<Rightarrow>
             (case (if includeEmbeddedLinks settings
                    then addLinks vaultFiles EMBEDDED (f_path file) (f_embeddedMatches file) graph1
                    else Inr graph1) of
                Inl thrown \<Rightarrow> Inl thrown
              | Inr graph2 \<Rightarrow>
                  if includeTagsInAnalysis settings \<and> fileTags file \<noteq> []
                  then addTagEdges (f_path file)
                         (take MAX_TAG_MATCHES (sortedMatches file allFiles)) graph2
                  else Inr graph2)))"

text \<open>\<open>processFile\<close>: the \<open>catch\<close> logs the error and keeps the graph as it is.\<close>

definition processFile ::
  "Settings \<Rightarrow> TFile list \<Rightarrow> TFile \<Rightarrow> TFile list \<Rightarrow> EnhancedGraph \<Rightarrow> EnhancedGraph"
where
  "processFile settings vaultFiles file allFiles graph =
     (case processFileBody settings vaultFiles file allFiles graph of
        Inl thrown \<Rightarrow> thrown
      | Inr graph' \<Rightarrow> graph')"

text \<open>
  \<open>processBacklinks\<close>. The outer loop walks the entries that the graph has when the pass
  starts; the adjacency map of a source is read when its turn comes, with the backlinks
  that earlier turns have written into it. \<open>None\<close> is the \<open>TypeError\<close> of
  \<open>graph[target].has\<close> for a target that has no entry; the pass has no \<open>catch\<close>.
  \<open>getAbstractFileByPath\<close> finds the file of the vault with that path.
\<close>

fun backlinksOfSource ::
  "TFile list \<Rightarrow> string \<Rightarrow> string list \<Rightarrow> EnhancedGraph \<Rightarrow> EnhancedGraph option"
where
  "backlinksOfSource vaultFiles source [] graph = Some graph"
| "backlinksOfSource vaultFiles source (target # rest) graph =
     (case map_of graph target of
        None \<Rightarrow> None
      | Some targetEdges \<Rightarrow>
          (if map_of targetEdges source = None
           then (case find (\<lambda>file. f_path file = source) vaultFiles of
                   Some sourceFile \<Rightarrow>
                     backlinksOfSource vaultFiles source rest
                       (AList.update target
                          (AList.update source
                             \<lparr> type = BACKLINK, commonTags = None,
                               metadata = Some (getFileMetadata sourceFile) \<rparr> targetEdges)
                          graph)
                 | None \<Rightarrow> backlinksOfSource vaultFiles source rest graph)
           else backlinksOfSource vaultFiles source rest graph))"

fun backlinksOfSources ::
  "TFile list \<Rightarrow> string list \<Rightarrow> EnhancedGraph \<Rightarrow> EnhancedGraph option"
where
  "backlinksOfSources vaultFiles [] graph = Some graph"
| "backlinksOfSources vaultFiles (source # rest) graph =
     (case backlinksOfSource vaultFiles source (map fst (neighborsOf graph source)) graph of
        None \<Rightarrow> None
      | Some graph' \<Rightarrow> backlinksOfSources vaultFiles rest graph')"

definition processBacklinks :: "TFile list \<Rightarrow> EnhancedGraph \<Rightarrow> EnhancedGraph option" where
  "processBacklinks vaultFiles graph = backlinksOfSources vaultFiles (map fst graph) graph"

text \<open>
  \<open>buildGraph\<close>: an empty adjacency map for every file, then \<open>processFile\<close> for every
  file, then the backlink pass when it is enabled. The files of a batch write to their
  own entries only, so the batches are modelled by processing the files in enumeration
  order.
\<close>

definition initGraph :: "TFile list \<Rightarrow> EnhancedGraph" where
  "initGraph files = fold (\<lambda>file graph. AList.update (f_path file) [] graph) files []"

definition forwardPasses :: "Settings \<Rightarrow> TFile list \<Rightarrow> EnhancedGraph" where
  "forwardPasses settings files =
     fold (\<lambda>file graph. processFile settings files file files graph) files (initGraph files)"

definition buildGraph :: "Settings \<Rightarrow> TFile list \<Rightarrow> EnhancedGraph option" where
  "buildGraph settings files =
     (if includeBacklinks settings
      then processBacklinks files (forwardPasses settings files)
      else Some (forwardPasses settings files))"

section \<open>The graph cache (updateGraphCache)\<close>

datatype ChangeType = Modify | Create | Delete

record ServiceState =
  cachedGraph :: "EnhancedGraph option"
  lastCacheTime :: nat

text \<open>
  \<open>now\<close> is the value of \<open>Date.now()\<close>. On delete the entry of the file goes and every
  other adjacency map loses its edge to it. On create the file gets an empty adjacency
  map. On create and modify \<open>processFile\<close> runs on the cached graph, with the files the
  vault has at that moment.
\<close>

definition updateGraphCache ::
  "Settings \<Rightarrow> TFile list \<Rightarrow> nat \<Rightarrow> TFile \<Rightarrow> ChangeType \<Rightarrow> ServiceState \<Rightarrow> ServiceState"
where
  "updateGraphCache settings vaultFiles now changedFile changeType st =
     (case cachedGraph st of
        None \<Rightarrow> st\<lparr> lastCacheTime := 0 \<rparr>
      | Some graph \<Rightarrow>
          if \<not> cacheGraphStructure settings then st\<lparr> lastCacheTime := 0 \<rparr>
          else if changeType = Delete
          then st\<lparr> cachedGraph :=
                      Some (map (\<lambda>(node, edges). (node, AList.delete (f_path changedFile) edges))
                              (AList.delete (f_path changedFile) graph)),
                    lastCacheTime := now \<rparr>
          else st\<lparr> cachedGraph :=
                      Some (processFile settings vaultFiles changedFile vaultFiles
                              (if changeType = Create
                               then AList.update (f_path changedFile) [] graph
                               else graph)),
                    lastCacheTime := now \<rparr>)"

text \<open>
  The edges that the extraction finds for one document: what \<open>processFile\<close> writes into
  an empty adjacency map, as \<open>buildGraph\<close> and the create case run it.
\<close>

definition extractedEdges :: "Settings \<Rightarrow> TFile list \<Rightarrow> TFile \<Rightarrow> AdjacencyMap" where
  "extractedEdges settings vaultFiles file =
     neighborsOf (processFile settings vaultFiles file vaultFiles [(f_path file, [])])
       (f_path file)"

section \<open>Properties of graphs\<close>

text \<open>
  The invariant of the data model: every edge target of every adjacency map has its own
  entry in the outer mapping (a source has one by being a key).
\<close>

definition graphClosed :: "EnhancedGraph \<Rightarrow> bool" where
  "graphClosed graph \<longleftrightarrow>
     (\<forall>(source, edges) \<in> set graph. \<forall>(target, info) \<in> set edges. map_of graph target \<noteq> None)"

text \<open>The payload stored for the ordered pair \<open>(source, target)\<close>, if there is an edge.\<close>

definition edgeInfo :: "EnhancedGraph \<Rightarrow> string \<Rightarrow> string \<Rightarrow> ConnectionInfo option" where
  "edgeInfo graph source target =
     (case map_of graph source of None \<Rightarrow> None | Some edges \<Rightarrow> map_of edges target)"

definition hasEdge :: "EnhancedGraph \<Rightarrow> string \<Rightarrow> string \<Rightarrow> bool" where
  "hasEdge graph source target \<longleftrightarrow> edgeInfo graph source target \<noteq> None"

section \<open>Clustering coefficient of the nodes of a path (connection-aware-modal)\<close>

text \<open>\<open>[...new Set(xs)]\<close>: the elements in the order of their first occurrence.\<close>

definition dedupe :: "'a list \<Rightarrow> 'a list" where
  "dedupe xs = rev (remdups (rev xs))"

definition getNeighbors :: "EnhancedGraph \<Rightarrow> string \<Rightarrow> string list" where
  "getNeighbors graph node =
     (let outgoing = map fst (neighborsOf graph node);
          incoming = map fst (filter (\<lambda>(source, targets). source \<noteq> node \<and> map_of targets node \<noteq> None)
                                graph)
      in dedupe (outgoing @ incoming))"

text \<open>\<open>graph[node1]?.has(node2) || graph[node2]?.has(node1)\<close>, as a condition.\<close>

definition hasConnection :: "EnhancedGraph \<Rightarrow> string \<Rightarrow> string \<Rightarrow> bool" where
  "hasConnection graph node1 node2 \<longleftrightarrow>
     (case map_of graph node1 of None \<Rightarrow> False | Some edges \<Rightarrow> map_of edges node2 \<noteq> None) \<or>
     (case map_of graph node2 of None \<Rightarrow> False | Some edges \<Rightarrow> map_of edges node1 \<noteq> None)"

text \<open>The double loop over the pairs \<open>i < j\<close> of the neighbours to check.\<close>

fun countConnections :: "EnhancedGraph \<Rightarrow> string list \<Rightarrow> nat" where
  "countConnections graph [] = 0"
| "countConnections graph (neighbor1 # rest) =
     length (filter (hasConnection graph neighbor1) rest) + countConnections graph rest"

definition MAX_NEIGHBORS_TO_CHECK :: nat where
  "MAX_NEIGHBORS_TO_CHECK = 15"

text \<open>
  The score of one node. Numbers are real numbers here; \<open>round\<close> is \<open>Math.round\<close>
  (half up).
\<close>

definition clusteringOfNode :: "EnhancedGraph \<Rightarrow> string \<Rightarrow> real" where
  "clusteringOfNode graph node =
     (let neighbors = getNeighbors graph node
      in if length neighbors < 2 then 0
         else
           (let possibleConnections = real (length neighbors * (length neighbors - 1)) / 2;
                neighborsToCheck =
                  (if length neighbors > MAX_NEIGHBORS_TO_CHECK
                   then take MAX_NEIGHBORS_TO_CHECK neighbors else neighbors);
                counted = real (countConnections graph neighborsToCheck);
                connections =
                  (if length neighbors > MAX_NEIGHBORS_TO_CHECK
                   then (let samplingRatio = real (length neighborsToCheck) / real (length neighbors)
                         in real_of_int (round (counted / (samplingRatio * samplingRatio))))
                   else counted)
            in if possibleConnections > 0 then connections / possibleConnections else 0))"

text \<open>
  The loop over the batches of three path nodes. \<open>cancelled i\<close> is the value of
  \<open>cancelAnalysisFlag\<close> when it is read before the batch that starts at index \<open>i\<close>; a
  cancelled analysis returns the scores it has.
\<close>

function clusteringBatches ::
  "EnhancedGraph \<Rightarrow> (nat \<Rightarrow> bool) \<Rightarrow> string list \<Rightarrow> nat \<Rightarrow> (string \<times> real) list
     \<Rightarrow> (string \<times> real) list"
where
  "clusteringBatches graph cancelled pathNodes i result =
     (if i < length pathNodes
      then (if cancelled i then result
            else clusteringBatches graph cancelled pathNodes (i + 3)
                   (fold (\<lambda>node r. AList.update node (clusteringOfNode graph node) r)
                      (take 3 (drop i pathNodes)) result))
      else result)"
  by pat_completeness auto
termination
  by (relation "measure (\<lambda>(graph, cancelled, pathNodes, i, result). length pathNodes - i)") auto

declare clusteringBatches.simps [simp del]

definition calculateClusteringCoefficient ::
  "EnhancedGraph \<Rightarrow> (nat \<Rightarrow> bool) \<Rightarrow> string list \<Rightarrow> (string \<times> real) list"
where
  "calculateClusteringCoefficient graph cancelled pathNodes =
     (if pathNodes = [] then [] else clusteringBatches graph cancelled pathNodes 0 [])"

text \<open>
  The neighbour set of the claim: the targets of the node's outgoing edges together with
  the nodes that have an edge to it.
\<close>

definition neighborSet :: "EnhancedGraph \<Rightarrow> string \<Rightarrow> string set" where
  "neighborSet graph node = {target. hasEdge graph node target} \<union> {source. hasEdge graph source node}"

section \<open>PageRank (hub-detection-service)\<close>

text \<open>
  A JavaScript number is a real number or \<open>NaN\<close> here: arithmetic is exact, and \<open>NaN\<close> is
  what reading a missing property gives in arithmetic, which then spreads. A division by
  zero occurs in \<open>calculatePageRank\<close> only with \<open>nodeCount = 0\<close>, where the quotient is
  never used; it is \<open>NaN\<close> here. A comparison with \<open>NaN\<close> is false.
\<close>

datatype jsnum = Num real | NaN

fun nadd :: "jsnum \<Rightarrow> jsnum \<Rightarrow> jsnum" where
  "nadd (Num x) (Num y) = Num (x + y)"
| "nadd a b = NaN"

fun nsub :: "jsnum \<Rightarrow> jsnum \<Rightarrow> jsnum" where
  "nsub (Num x) (Num y) = Num (x - y)"
| "nsub a b = NaN"

fun nmul :: "jsnum \<Rightarrow> jsnum \<Rightarrow> jsnum" where
  "nmul (Num x) (Num y) = Num (x * y)"
| "nmul a b = NaN"

fun ndiv :: "jsnum \<Rightarrow> jsnum \<Rightarrow> jsnum" where
  "ndiv (Num x) (Num y) = (if y = 0 then NaN else Num (x / y))"
| "ndiv a b = NaN"

fun nabs :: "jsnum \<Rightarrow> jsnum" where
  "nabs (Num x) = Num \<bar>x\<bar>"
| "nabs NaN = NaN"

fun nless :: "jsnum \<Rightarrow> jsnum \<Rightarrow> bool" where
  "nless (Num x) (Num y) = (x < y)"
| "nless a b = False"

type_synonym Ranks = "(string \<times> jsnum) list"

text \<open>\<open>ranks[node]\<close> read as a number: a missing property gives \<open>NaN\<close>.\<close>

definition getRank :: "Ranks \<Rightarrow> string \<Rightarrow> jsnum" where
  "getRank ranks node = (case map_of ranks node of None \<Rightarrow> NaN | Some v \<Rightarrow> v)"

text \<open>\<open>for (const key of keys) ranks[key] += amount\<close>\<close>

fun distribute :: "jsnum \<Rightarrow> string list \<Rightarrow> Ranks \<Rightarrow> Ranks" where
  "distribute amount [] ranks = ranks"
| "distribute amount (key # keys) ranks =
     distribute amount keys (AList.update key (nadd (getRank ranks key) amount) ranks)"

text \<open>The first loop of an iteration: \<open>prevPageRank[node] = pageRank[node]; pageRank[node] = 0\<close>.\<close>

fun savePrevious :: "string list \<Rightarrow> Ranks \<times> Ranks \<Rightarrow> Ranks \<times> Ranks" where
  "savePrevious [] (pageRank, prevPageRank) = (pageRank, prevPageRank)"
| "savePrevious (node # nodes) (pageRank, prevPageRank) =
     savePrevious nodes
       (AList.update node (Num 0) pageRank,
        AList.update node (getRank pageRank node) prevPageRank)"

text \<open>
  The loop over \<open>Object.entries(graph)\<close>: a node with out-edges gives its previous value,
  divided by its out-degree and damped, to every target; a node without out-edges gives
  its previous value, divided by the node count and damped, to every node.
\<close>

fun spreadRanks ::
  "real \<Rightarrow> string list \<Rightarrow> Ranks \<Rightarrow> EnhancedGraph \<Rightarrow> Ranks \<Rightarrow> Ranks"
where
  "spreadRanks dampingFactor nodes prevPageRank [] pageRank = pageRank"
| "spreadRanks dampingFactor nodes prevPageRank ((node, edges) # rest) pageRank =
     (let outDegree = length edges
      in if outDegree > 0
         then spreadRanks dampingFactor nodes prevPageRank rest
                (distribute
                   (nmul (Num dampingFactor)
                      (ndiv (getRank prevPageRank node) (Num (real outDegree))))
                   (map fst edges) pageRank)
         else spreadRanks dampingFactor nodes prevPageRank rest
                (distribute
                   (nmul (Num dampingFactor)
                      (ndiv (getRank prevPageRank node) (Num (real (length nodes)))))
                   nodes pageRank))"

definition rankDifference :: "string list \<Rightarrow> Ranks \<Rightarrow> Ranks \<Rightarrow> jsnum" where
  "rankDifference nodes pageRank prevPageRank =
     fold (\<lambda>node diff. nadd diff (nabs (nsub (getRank pageRank node) (getRank prevPageRank node))))
       nodes (Num 0)"

text \<open>The iteration loop, with the number of iterations left.\<close>

fun iterateRanks ::
  "nat \<Rightarrow> real \<Rightarrow> real \<Rightarrow> EnhancedGraph \<Rightarrow> Ranks \<times> Ranks \<Rightarrow> Ranks"
where
  "iterateRanks 0 dampingFactor tolerance graph (pageRank, prevPageRank) = pageRank"
| "iterateRanks (Suc left) dampingFactor tolerance graph (pageRank, prevPageRank) =
     (let nodes = map fst graph;
          (pageRank1, prevPageRank1) = savePrevious nodes (pageRank, prevPageRank);
          pageRank2 = spreadRanks dampingFactor nodes prevPageRank1 graph pageRank1;
          baseValue = ndiv (Num (1 - dampingFactor)) (Num (real (length nodes)));
          pageRank3 = distribute baseValue nodes pageRank2
      in if nless (rankDifference nodes pageRank3 prevPageRank1) (Num tolerance)
         then pageRank3
         else iterateRanks left dampingFactor tolerance graph (pageRank3, prevPageRank1))"

text \<open>
  \<open>Math.max(...values)\<close>: \<open>None\<close> is the \<open>-Infinity\<close> of the empty list, and one \<open>NaN\<close>
  makes the maximum \<open>NaN\<close>.
\<close>

fun mathMax :: "jsnum list \<Rightarrow> jsnum option" where
  "mathMax [] = None"
| "mathMax (v # vs) =
     (case (v, mathMax vs) of
        (NaN, m) \<Rightarrow> Some NaN
      | (Num x, None) \<Rightarrow> Some (Num x)
      | (Num x, Some NaN) \<Rightarrow> Some NaN
      | (Num x, Some (Num y)) \<Rightarrow> Some (Num (max x y)))"

definition normalizeRanks :: "string list \<Rightarrow> Ranks \<Rightarrow> Ranks" where
  "normalizeRanks nodes pageRank =
     (case mathMax (map snd pageRank) of
        Some (Num maxRank) \<Rightarrow>
          if maxRank > 0
          then fold (\<lambda>node ranks. AList.update node (ndiv (getRank ranks node) (Num maxRank)) ranks)
                 nodes pageRank
          else pageRank
      | _ \<Rightarrow> pageRank)"

definition initialRanks :: "string list \<Rightarrow> Ranks" where
  "initialRanks nodes =
     fold (\<lambda>node ranks. AList.update node (ndiv (Num 1) (Num (real (length nodes)))) ranks) nodes []"

definition calculatePageRank :: "EnhancedGraph \<Rightarrow> real \<Rightarrow> nat \<Rightarrow> real \<Rightarrow> Ranks" where
  "calculatePageRank graph dampingFactor iterations tolerance =
     normalizeRanks (map fst graph)
       (iterateRanks iterations dampingFactor tolerance graph
          (initialRanks (map fst graph), initialRanks (map fst graph)))"

section \<open>Degree centrality (hub-detection-service)\<close>

type_synonym Counts = "(string \<times> nat) list"

text \<open>\<open>counts[node] || 0\<close>: a missing property counts as 0.\<close>

definition getCount :: "Counts \<Rightarrow> string \<Rightarrow> nat" where
  "getCount counts node = (case map_of counts node of None \<Rightarrow> 0 | Some n \<Rightarrow> n)"

text \<open>
  \<open>for (const neighbor of edges.keys()) inDegree[neighbor] = (inDegree[neighbor] || 0) + 1\<close>
\<close>

fun countIncoming :: "string list \<Rightarrow> Counts \<Rightarrow> Counts" where
  "countIncoming [] inDegree = inDegree"
| "countIncoming (neighbor # rest) inDegree =
     countIncoming rest (AList.update neighbor (getCount inDegree neighbor + 1) inDegree)"

text \<open>The loop over \<open>Object.entries(graph)\<close>: the out-degree of the node and the incoming
  edges of its targets.\<close>

fun degreeLoop :: "EnhancedGraph \<Rightarrow> Counts \<times> Counts \<Rightarrow> Counts \<times> Counts" where
  "degreeLoop [] (inDegree, outDegree) = (inDegree, outDegree)"
| "degreeLoop ((node, edges) # rest) (inDegree, outDegree) =
     degreeLoop rest
       (countIncoming (map fst edges) inDegree, AList.update node (length edges) outDegree)"

text \<open>\<open>calculateDegreeCentrality\<close>: the in-degrees, the out-degrees and the total degrees.\<close>

definition calculateDegreeCentrality :: "EnhancedGraph \<Rightarrow> Counts \<times> Counts \<times> Counts" where
  "calculateDegreeCentrality graph =
     (let nodes = map fst graph;
          zeros = fold (\<lambda>node counts. AList.update node 0 counts) nodes [];
          (inDegree, outDegree) = degreeLoop graph (zeros, zeros);
          totalDegree =
            fold (\<lambda>node counts.
                    AList.update node (getCount inDegree node + getCount outDegree node) counts)
              nodes []
      in (inDegree, outDegree, totalDegree))"

section \<open>What processFile and the backlink pass change\<close>

definition graphOf :: "EnhancedGraph + EnhancedGraph \<Rightarrow> EnhancedGraph" where
  "graphOf r = (case r of Inl g \<Rightarrow> g | Inr g \<Rightarrow> g)"

definition sameExcept :: "string \<Rightarrow> EnhancedGraph \<Rightarrow> EnhancedGraph \<Rightarrow> bool" where
  "sameExcept source g g' \<longleftrightarrow>
     map fst g' = map fst g \<and> (\<forall>node. node \<noteq> source \<longrightarrow> map_of g' node = map_of g node)"

lemma sameExcept_refl [simp]: "sameExcept source g g"
  by (simp add: sameExcept_def)

lemma sameExcept_trans:
  "sameExcept source g g' \<Longrightarrow> sameExcept source g' g'' \<Longrightarrow> sameExcept source g g''"
  by (simp add: sameExcept_def)

lemma graphOf_simps [simp]: "graphOf (Inl g) = g" "graphOf (Inr g) = g"
  by (simp_all add: graphOf_def)

lemma map_of_keys_mem: "map_of al k = Some v \<Longrightarrow> k \<in> set (map fst al)"
  by (metis map_of_eq_None_iff option.distinct(1) set_map)

lemma sameExcept_setEdge: "sameExcept source g (graphOf (setEdge source target info g))"
proof (cases "map_of g source")
  case None
  then show ?thesis by (simp add: setEdge_def)
next
  case (Some edges)
  then have "source \<in> set (map fst g)" by (rule map_of_keys_mem)
  then show ?thesis using Some
    by (simp add: setEdge_def sameExcept_def update_keys update_conv')
qed

lemma sameExcept_addLinks:
  "sameExcept source g (graphOf (addLinks files kind source ms g))"
proof (induction ms arbitrary: g)
  case Nil
  then show ?case by simp
next
  case (Cons m ms)
  show ?case
  proof (cases "linkText m \<noteq> []")
    case False
    then show ?thesis using Cons.IH [of g] by simp
  next
    case True
    show ?thesis
    proof (cases "findNoteByName files (linkText m)")
      case None
      with True show ?thesis using Cons.IH [of g] by simp
    next
      case (Some linkedFile)
      let ?r = "setEdge source (f_path linkedFile)
                  \<lparr> type = kind, commonTags = None,
                    metadata = Some (getFileMetadata linkedFile) \<rparr> g"
      have step: "sameExcept source g (graphOf ?r)" by (rule sameExcept_setEdge)
      show ?thesis
      proof (cases ?r)
        case (Inl thrown)
        with True Some step show ?thesis by simp
      next
        case (Inr g')
        with step have "sameExcept source g g'" by simp
        from sameExcept_trans [OF this Cons.IH [of g']] True Some Inr
        show ?thesis by simp
      qed
    qed
  qed
qed

lemma sameExcept_addTagEdges:
  "sameExcept source g (graphOf (addTagEdges source entries g))"
proof (induction entries arbitrary: g)
  case Nil
  then show ?case by simp
next
  case (Cons entry entries)
  obtain key otherFile common where e: "entry = (key, otherFile, common)"
    by (cases entry) auto
  let ?r = "setEdge source (f_path otherFile)
              \<lparr> type = TAG, commonTags = Some common,
                metadata = Some (getFileMetadata otherFile) \<rparr> g"
  have step: "sameExcept source g (graphOf ?r)" by (rule sameExcept_setEdge)
  show ?case
  proof (cases ?r)
    case (Inl thrown)
    with e step show ?thesis by simp
  next
    case (Inr g')
    with step have "sameExcept source g g'" by simp
    from sameExcept_trans [OF this Cons.IH [of g']] e Inr
    show ?thesis by simp
  qed
qed

lemma processFile_graphOf:
  "processFile settings vaultFiles file allFiles g
     = graphOf (processFileBody settings vaultFiles file allFiles g)"
  by (simp add: processFile_def graphOf_def)

lemma sameExcept_processFile:
  "sameExcept (f_path file) g (processFile settings vaultFiles file allFiles g)"
proof (cases "f_readFails file")
  case True
  then show ?thesis by (simp add: processFile_graphOf processFileBody_def)
next
  case False
  let ?r1 = "addLinks vaultFiles DIRECT (f_path file) (f_wikiMatches file) g"
  have s1: "sameExcept (f_path file) g (graphOf ?r1)" by (rule sameExcept_addLinks)
  show ?thesis
  proof (cases ?r1)
    case (Inl thrown)
    with False s1 show ?thesis by (simp add: processFile_graphOf processFileBody_def)
  next
    case (Inr g1)
    with s1 have g1: "sameExcept (f_path file) g g1" by simp
    let ?r2 = "if includeEmbeddedLinks settings
               then addLinks vaultFiles EMBEDDED (f_path file) (f_embeddedMatches file) g1
               else Inr g1"
    have "sameExcept (f_path file) g1 (graphOf ?r2)"
      by (simp add: sameExcept_addLinks)
    with g1 have s2: "sameExcept (f_path file) g (graphOf ?r2)" by (rule sameExcept_trans)
    show ?thesis
    proof (cases ?r2)
      case (Inl thrown)
      with False Inr s2 show ?thesis by (simp add: processFile_graphOf processFileBody_def)
    next
      case (Inr g2)
      with s2 have g2: "sameExcept (f_path file) g g2" by simp
      let ?r3 = "if includeTagsInAnalysis settings \<and> fileTags file \<noteq> []
                 then addTagEdges (f_path file)
                        (take MAX_TAG_MATCHES (sortedMatches file allFiles)) g2
                 else Inr g2"
      have "sameExcept (f_path file) g2 (graphOf ?r3)"
        by (simp add: sameExcept_addTagEdges)
      with g2 have "sameExcept (f_path file) g (graphOf ?r3)" by (rule sameExcept_trans)
      with False \<open>?r1 = Inr g1\<close> Inr show ?thesis
        by (simp add: processFile_graphOf processFileBody_def)
    qed
  qed
qed

lemma set_update_subset: "set (AList.update k v al) \<subseteq> insert (k, v) (set al)"
  by (induction al) auto

lemma keys_update_subset: "fst ` set (AList.update k v al) \<subseteq> insert k (fst ` set al)"
  by (induction al) auto

lemma allTargets_update:
  "allTargets (AList.update source edges' g) \<subseteq> allTargets g \<union> fst ` set edges'"
proof
  fix t assume "t \<in> allTargets (AList.update source edges' g)"
  then obtain s e where mem: "(s, e) \<in> set (AList.update source edges' g)" and t: "t \<in> fst ` set e"
    unfolding allTargets_def by blast
  from mem set_update_subset [of source edges' g]
  have "(s, e) = (source, edges') \<or> (s, e) \<in> set g" by auto
  then show "t \<in> allTargets g \<union> fst ` set edges'"
    using t unfolding allTargets_def by blast
qed

lemma map_of_allTargets:
  "map_of g source = Some edges \<Longrightarrow> fst ` set edges \<subseteq> allTargets g"
  unfolding allTargets_def by (blast dest: map_of_SomeD)

lemma allTargets_setEdge:
  "allTargets (graphOf (setEdge source target info g)) \<subseteq> insert target (allTargets g)"
proof (cases "map_of g source")
  case None
  then show ?thesis by (auto simp: setEdge_def)
next
  case (Some edges)
  from keys_update_subset [of target info edges] map_of_allTargets [OF Some]
  have "fst ` set (AList.update target info edges) \<subseteq> insert target (allTargets g)" by blast
  with allTargets_update [of source "AList.update target info edges" g] Some
  show ?thesis by (auto simp: setEdge_def)
qed

lemma findNoteByName_mem: "findNoteByName files name = Some file \<Longrightarrow> file \<in> set files"
  by (auto simp: findNoteByName_def find_Some_iff split: option.splits)

lemma allTargets_addLinks:
  "allTargets (graphOf (addLinks files kind source ms g)) \<subseteq> allTargets g \<union> f_path ` set files"
proof (induction ms arbitrary: g)
  case Nil
  then show ?case by simp
next
  case (Cons m ms)
  show ?case
  proof (cases "linkText m \<noteq> []")
    case False
    then show ?thesis using Cons.IH [of g] by simp
  next
    case True
    show ?thesis
    proof (cases "findNoteByName files (linkText m)")
      case None
      with True show ?thesis using Cons.IH [of g] by simp
    next
      case (Some linkedFile)
      let ?r = "setEdge source (f_path linkedFile)
                  \<lparr> type = kind, commonTags = None,
                    metadata = Some (getFileMetadata linkedFile) \<rparr> g"
      have "f_path linkedFile \<in> f_path ` set files"
        using findNoteByName_mem [OF Some] by simp
      with allTargets_setEdge [of source "f_path linkedFile" _ g]
      have step: "allTargets (graphOf ?r) \<subseteq> allTargets g \<union> f_path ` set files" by blast
      show ?thesis
      proof (cases ?r)
        case (Inl thrown)
        with True Some step show ?thesis by simp
      next
        case (Inr g')
        with step have "allTargets g' \<subseteq> allTargets g \<union> f_path ` set files" by simp
        with Cons.IH [of g'] True Some Inr show ?thesis by auto
      qed
    qed
  qed
qed

lemma tagMatchCounts_files:
  "(key, otherFile, common) \<in> set (tagMatchCounts file others acc) \<Longrightarrow>
   otherFile \<in> set others \<or> (key, otherFile, common) \<in> set acc"
proof (induction others arbitrary: acc)
  case Nil
  then show ?case by simp
next
  case (Cons other others)
  show ?case
  proof (cases "f_path other \<noteq> f_path file \<and> fileTags other \<noteq> [] \<and>
         filter (\<lambda>tag. tag \<in> set (fileTags other)) (fileTags file) \<noteq> []")
    case False
    with Cons.prems have "(key, otherFile, common) \<in> set (tagMatchCounts file others acc)"
      by auto
    from Cons.IH [OF this] show ?thesis by auto
  next
    case True
    let ?acc = "AList.update (f_path other)
                (other, filter (\<lambda>tag. tag \<in> set (fileTags other)) (fileTags file)) acc"
    from True Cons.prems have "(key, otherFile, common) \<in> set (tagMatchCounts file others ?acc)"
      by simp
    from Cons.IH [OF this] set_update_subset [of "f_path other" _ acc]
    show ?thesis by auto
  qed
qed

lemma allTargets_addTagEdges:
  "\<forall>(key, otherFile, common) \<in> set entries. otherFile \<in> set allFiles \<Longrightarrow>
   allTargets (graphOf (addTagEdges source entries g)) \<subseteq> allTargets g \<union> f_path ` set allFiles"
proof (induction entries arbitrary: g)
  case Nil
  then show ?case by simp
next
  case (Cons entry entries)
  obtain key otherFile common where e: "entry = (key, otherFile, common)"
    by (cases entry) auto
  let ?r = "setEdge source (f_path otherFile)
              \<lparr> type = TAG, commonTags = Some common,
                metadata = Some (getFileMetadata otherFile) \<rparr> g"
  from Cons.prems e have "f_path otherFile \<in> f_path ` set allFiles" by auto
  with allTargets_setEdge [of source "f_path otherFile" _ g]
  have step: "allTargets (graphOf ?r) \<subseteq> allTargets g \<union> f_path ` set allFiles" by blast
  from Cons.prems have rest: "\<forall>(key, otherFile, common) \<in> set entries. otherFile \<in> set allFiles"
    by simp
  show ?case
  proof (cases ?r)
    case (Inl thrown)
    with e step show ?thesis by simp
  next
    case (Inr g')
    with step have "allTargets g' \<subseteq> allTargets g \<union> f_path ` set allFiles" by simp
    with Cons.IH [OF rest, of g'] e Inr show ?thesis by auto
  qed
qed

lemma sortedMatches_files:
  "\<forall>(key, otherFile, common) \<in> set (take n (sortedMatches file allFiles)). otherFile \<in> set allFiles"
proof -
  have "set (take n (sortedMatches file allFiles)) \<subseteq> set (tagMatchCounts file allFiles [])"
    using set_take_subset [of n "sortedMatches file allFiles"] by (simp add: sortedMatches_def)
  moreover have "otherFile \<in> set allFiles"
    if "(key, otherFile, common) \<in> set (tagMatchCounts file allFiles [])" for key otherFile common
    using tagMatchCounts_files [OF that] by simp
  ultimately show ?thesis by blast
qed

lemma allTargets_processFile:
  "allTargets (processFile settings vaultFiles file allFiles g)
     \<subseteq> allTargets g \<union> f_path ` set vaultFiles \<union> f_path ` set allFiles"
proof (cases "f_readFails file")
  case True
  then show ?thesis by (auto simp: processFile_graphOf processFileBody_def)
next
  case False
  let ?T = "allTargets g \<union> f_path ` set vaultFiles \<union> f_path ` set allFiles"
  let ?r1 = "addLinks vaultFiles DIRECT (f_path file) (f_wikiMatches file) g"
  have s1: "allTargets (graphOf ?r1) \<subseteq> ?T"
    using allTargets_addLinks [of vaultFiles DIRECT "f_path file" "f_wikiMatches file" g] by auto
  show ?thesis
  proof (cases ?r1)
    case (Inl thrown)
    with False s1 show ?thesis by (simp add: processFile_graphOf processFileBody_def)
  next
    case (Inr g1)
    with s1 have g1: "allTargets g1 \<subseteq> ?T" by simp
    let ?r2 = "if includeEmbeddedLinks settings
               then addLinks vaultFiles EMBEDDED (f_path file) (f_embeddedMatches file) g1
               else Inr g1"
    have "allTargets (graphOf ?r2) \<subseteq> allTargets g1 \<union> f_path ` set vaultFiles"
      using allTargets_addLinks [of vaultFiles EMBEDDED "f_path file" "f_embeddedMatches file" g1]
      by auto
    with g1 have s2: "allTargets (graphOf ?r2) \<subseteq> ?T" by auto
    show ?thesis
    proof (cases ?r2)
      case (Inl thrown)
      with False Inr s2 show ?thesis by (simp add: processFile_graphOf processFileBody_def)
    next
      case (Inr g2)
      with s2 have g2: "allTargets g2 \<subseteq> ?T" by simp
      let ?r3 = "if includeTagsInAnalysis settings \<and> fileTags file \<noteq> []
                 then addTagEdges (f_path file)
                        (take MAX_TAG_MATCHES (sortedMatches file allFiles)) g2
                 else Inr g2"
      have "allTargets (graphOf ?r3) \<subseteq> allTargets g2 \<union> f_path ` set allFiles"
        using allTargets_addTagEdges [OF sortedMatches_files, of "f_path file" MAX_TAG_MATCHES "file" allFiles g2]
        by auto
      with g2 have "allTargets (graphOf ?r3) \<subseteq> ?T" by auto
      with False \<open>?r1 = Inr g1\<close> Inr show ?thesis
        by (simp add: processFile_graphOf processFileBody_def)
    qed
  qed
qed

lemma graphClosed_iff: "graphClosed g \<longleftrightarrow> allTargets g \<subseteq> fst ` set g"
proof
  assume c: "graphClosed g"
  show "allTargets g \<subseteq> fst ` set g"
  proof
    fix t assume "t \<in> allTargets g"
    then obtain s e i where "(s, e) \<in> set g" "(t, i) \<in> set e"
      unfolding allTargets_def by auto
    with c have "map_of g t \<noteq> None" unfolding graphClosed_def by fastforce
    then show "t \<in> fst ` set g" by (simp add: map_of_eq_None_iff del: not_None_eq)
  qed
next
  assume a: "allTargets g \<subseteq> fst ` set g"
  have "map_of g t \<noteq> None" if "(s, e) \<in> set g" "(t, i) \<in> set e" for s e t i
  proof -
    from that have "t \<in> allTargets g" unfolding allTargets_def by force
    with a have "t \<in> fst ` set g" by blast
    then show ?thesis by (simp add: map_of_eq_None_iff del: not_None_eq)
  qed
  then show "graphClosed g"
    unfolding graphClosed_def by blast
qed

lemma edgeInfo_update:
  assumes "map_of g t = Some te"
  shows "edgeInfo (AList.update t (AList.update s i te) g) u v
           = (if u = t \<and> v = s then Some i else edgeInfo g u v)"
  using assms by (simp add: edgeInfo_def update_conv')

lemma edgeInfo_source_key: "edgeInfo g u v \<noteq> None \<Longrightarrow> map_of g u \<noteq> None"
  by (auto simp: edgeInfo_def split: option.splits)

lemma edgeInfo_target: "edgeInfo g u v \<noteq> None \<Longrightarrow> v \<in> allTargets g"
proof -
  assume "edgeInfo g u v \<noteq> None"
  then obtain e where e: "map_of g u = Some e" and "map_of e v \<noteq> None"
    by (auto simp: edgeInfo_def split: option.splits)
  then have "v \<in> fst ` set e" by (simp add: map_of_eq_None_iff)
  with map_of_allTargets [OF e] show ?thesis by blast
qed

lemma neighborsOf_edgeInfo:
  "t \<in> set (map fst (neighborsOf g s)) \<longleftrightarrow> edgeInfo g s t \<noteq> None"
proof (cases "map_of g s")
  case None
  then show ?thesis by (simp add: neighborsOf_def edgeInfo_def)
next
  case (Some e)
  then show ?thesis
    by (simp add: neighborsOf_def edgeInfo_def map_of_eq_None_iff del: not_None_eq)
qed

definition backlinkExtension :: "EnhancedGraph \<Rightarrow> EnhancedGraph \<Rightarrow> bool" where
  "backlinkExtension g g' \<longleftrightarrow>
     map fst g' = map fst g \<and>
     (\<forall>u v info. edgeInfo g u v = Some info \<longrightarrow> edgeInfo g' u v = Some info) \<and>
     (\<forall>u v info. edgeInfo g' u v = Some info \<longrightarrow> edgeInfo g u v = None \<longrightarrow> type info = BACKLINK)"

lemma backlinkExtension_refl: "backlinkExtension g g"
  by (auto simp: backlinkExtension_def)

lemma backlinkExtension_trans:
  assumes "backlinkExtension g g'" and "backlinkExtension g' g''"
  shows "backlinkExtension g g''"
  unfolding backlinkExtension_def
proof (intro conjI allI impI)
  show "map fst g'' = map fst g" using assms by (simp add: backlinkExtension_def)
next
  fix u v info assume "edgeInfo g u v = Some info"
  then show "edgeInfo g'' u v = Some info" using assms by (simp add: backlinkExtension_def)
next
  fix u v info assume new: "edgeInfo g'' u v = Some info" and old: "edgeInfo g u v = None"
  show "type info = BACKLINK"
  proof (cases "edgeInfo g' u v")
    case None
    with new assms(2) show ?thesis unfolding backlinkExtension_def by blast
  next
    case (Some info')
    with assms(2) have "edgeInfo g'' u v = Some info'" unfolding backlinkExtension_def by blast
    with new have "info' = info" by simp
    with Some old assms(1) show ?thesis unfolding backlinkExtension_def by blast
  qed
qed

lemma map_of_same_keys:
  "map fst g' = map fst g \<Longrightarrow> map_of g' k \<noteq> None \<longleftrightarrow> map_of g k \<noteq> None"
  by (metis map_of_eq_None_iff set_map)

lemma backlinkExtension_keep:
  assumes "backlinkExtension g g'" and "edgeInfo g u v \<noteq> None"
  shows "edgeInfo g' u v \<noteq> None"
proof -
  from assms(2) obtain info where "edgeInfo g u v = Some info" by blast
  with assms(1) have "edgeInfo g' u v = Some info" unfolding backlinkExtension_def by blast
  then show ?thesis by simp
qed

lemma backlinksOfSource_correct:
  assumes "\<forall>t \<in> set ts. map_of g t \<noteq> None"
    and "find (\<lambda>file. f_path file = src) vaultFiles \<noteq> None"
  shows "\<exists>g'. backlinksOfSource vaultFiles src ts g = Some g' \<and> backlinkExtension g g' \<and>
              (\<forall>t \<in> set ts. edgeInfo g' t src \<noteq> None) \<and>
              (\<forall>u v. edgeInfo g' u v \<noteq> None \<longrightarrow> edgeInfo g u v = None \<longrightarrow> v = src \<and> u \<in> set ts)"
  using assms
proof (induction ts arbitrary: g)
  case Nil
  then show ?case by (simp add: backlinkExtension_refl)
next
  case (Cons t ts)
  from Cons.prems(1) obtain te where te: "map_of g t = Some te" by auto
  from Cons.prems(2) obtain sourceFile where
    sf: "find (\<lambda>file. f_path file = src) vaultFiles = Some sourceFile"
    by blast
  show ?case
  proof (cases "map_of te src = None")
    case False
    from Cons.prems have "\<forall>t \<in> set ts. map_of g t \<noteq> None" by (simp del: not_None_eq)
    from Cons.IH [OF this Cons.prems(2)] obtain g' where
      g': "backlinksOfSource vaultFiles src ts g = Some g'" "backlinkExtension g g'"
          "\<forall>t \<in> set ts. edgeInfo g' t src \<noteq> None"
          "\<forall>u v. edgeInfo g' u v \<noteq> None \<longrightarrow> edgeInfo g u v = None \<longrightarrow> v = src \<and> u \<in> set ts"
      by blast
    have run: "backlinksOfSource vaultFiles src (t # ts) g = Some g'"
      using te False g'(1) by (simp del: not_None_eq)
    from False te have "edgeInfo g t src \<noteq> None" by (simp add: edgeInfo_def del: not_None_eq)
    from backlinkExtension_keep [OF g'(2) this] g'(3)
    have all: "\<forall>t' \<in> set (t # ts). edgeInfo g' t' src \<noteq> None" by (simp del: not_None_eq)
    have new: "\<forall>u v. edgeInfo g' u v \<noteq> None \<longrightarrow> edgeInfo g u v = None
                 \<longrightarrow> v = src \<and> u \<in> set (t # ts)"
    proof (intro allI impI)
      fix u v assume "edgeInfo g' u v \<noteq> None" "edgeInfo g u v = None"
      with g'(4) have "v = src \<and> u \<in> set ts" by blast
      then show "v = src \<and> u \<in> set (t # ts)" by simp
    qed
    show ?thesis by (intro exI conjI) (rule run, rule g'(2), rule all, rule new)
  next
    case True
    let ?bl = "\<lparr> type = BACKLINK, commonTags = None, metadata = Some (getFileMetadata sourceFile) \<rparr>"
    let ?g1 = "AList.update t (AList.update src ?bl te) g"
    have ei: "edgeInfo ?g1 u v = (if u = t \<and> v = src then Some ?bl else edgeInfo g u v)" for u v
      by (rule edgeInfo_update [OF te])
    have old: "edgeInfo g t src = None" using te True by (simp add: edgeInfo_def)
    have keys1: "map fst ?g1 = map fst g"
      using map_of_keys_mem [OF te] by (simp add: update_keys)
    have ext1: "backlinkExtension g ?g1"
      unfolding backlinkExtension_def
    proof (intro conjI allI impI)
      show "map fst ?g1 = map fst g" by (rule keys1)
    next
      fix u v info assume "edgeInfo g u v = Some info"
      with old show "edgeInfo ?g1 u v = Some info" by (cases "u = t \<and> v = src") (auto simp: ei)
    next
      fix u v info assume "edgeInfo ?g1 u v = Some info" "edgeInfo g u v = None"
      then show "type info = BACKLINK" by (cases "u = t \<and> v = src") (auto simp: ei)
    qed
    from Cons.prems(1) have "\<forall>t \<in> set ts. map_of g t \<noteq> None" by (simp del: not_None_eq)
    with keys1 have "\<forall>t \<in> set ts. map_of ?g1 t \<noteq> None"
      using map_of_same_keys [OF keys1] by blast
    from Cons.IH [OF this Cons.prems(2)] obtain g' where
      g': "backlinksOfSource vaultFiles src ts ?g1 = Some g'" "backlinkExtension ?g1 g'"
          "\<forall>t \<in> set ts. edgeInfo g' t src \<noteq> None"
          "\<forall>u v. edgeInfo g' u v \<noteq> None \<longrightarrow> edgeInfo ?g1 u v = None \<longrightarrow> v = src \<and> u \<in> set ts"
      by blast
    have run: "backlinksOfSource vaultFiles src (t # ts) g = Some g'"
      using te True sf g'(1) by simp
    have ext: "backlinkExtension g g'" by (rule backlinkExtension_trans [OF ext1 g'(2)])
    have "edgeInfo ?g1 t src \<noteq> None" by (simp add: ei)
    from backlinkExtension_keep [OF g'(2) this] g'(3)
    have all: "\<forall>t' \<in> set (t # ts). edgeInfo g' t' src \<noteq> None" by (simp del: not_None_eq)
    have new: "\<forall>u v. edgeInfo g' u v \<noteq> None \<longrightarrow> edgeInfo g u v = None
                 \<longrightarrow> v = src \<and> u \<in> set (t # ts)"
    proof (intro allI impI)
      fix u v assume a: "edgeInfo g' u v \<noteq> None" "edgeInfo g u v = None"
      show "v = src \<and> u \<in> set (t # ts)"
      proof (cases "u = t \<and> v = src")
        case True
        then show ?thesis by simp
      next
        case False
        with a(2) have "edgeInfo ?g1 u v = None" by (simp add: ei)
        with g'(4) a(1) have "v = src \<and> u \<in> set ts" by blast
        then show ?thesis by simp
      qed
    qed
    show ?thesis by (intro exI conjI) (rule run, rule ext, rule all, rule new)
  qed
qed

lemma backlinksOfSources_correct:
  assumes "\<forall>u v. edgeInfo g u v \<noteq> None \<longrightarrow> map_of g v \<noteq> None"
    and "\<forall>s \<in> set ss. find (\<lambda>file. f_path file = s) vaultFiles \<noteq> None \<and> map_of g s \<noteq> None"
    and "\<forall>u v. edgeInfo g u v \<noteq> None \<longrightarrow> u \<notin> set ss \<longrightarrow> edgeInfo g v u \<noteq> None"
  shows "\<exists>g'. backlinksOfSources vaultFiles ss g = Some g' \<and> backlinkExtension g g' \<and>
              (\<forall>u v. edgeInfo g' u v \<noteq> None \<longrightarrow> edgeInfo g' v u \<noteq> None)"
  using assms
proof (induction ss arbitrary: g)
  case Nil
  then show ?case by (simp add: backlinkExtension_refl)
next
  case (Cons s ss)
  let ?ts = "map fst (neighborsOf g s)"
  have ts: "t \<in> set ?ts \<longleftrightarrow> edgeInfo g s t \<noteq> None" for t
    by (rule neighborsOf_edgeInfo)
  from Cons.prems(1) ts have c1: "\<forall>t \<in> set ?ts. map_of g t \<noteq> None" by blast
  from Cons.prems(2) have c2: "find (\<lambda>file. f_path file = s) vaultFiles \<noteq> None"
    by (simp del: not_None_eq)
  from backlinksOfSource_correct [OF c1 c2] obtain g1 where
    g1: "backlinksOfSource vaultFiles s ?ts g = Some g1" "backlinkExtension g g1"
        "\<forall>t \<in> set ?ts. edgeInfo g1 t s \<noteq> None"
        "\<forall>u v. edgeInfo g1 u v \<noteq> None \<longrightarrow> edgeInfo g u v = None \<longrightarrow> v = s \<and> u \<in> set ?ts"
    by blast
  from g1(2) have keys: "map fst g1 = map fst g" by (simp add: backlinkExtension_def)
  have keep: "edgeInfo g1 u v \<noteq> None" if "edgeInfo g u v \<noteq> None" for u v
    by (rule backlinkExtension_keep [OF g1(2) that])
  from Cons.prems(2) have "map_of g s \<noteq> None" by (simp del: not_None_eq)
  then have skey: "map_of g1 s \<noteq> None"
    using map_of_same_keys [OF keys] by blast
  have p1: "\<forall>u v. edgeInfo g1 u v \<noteq> None \<longrightarrow> map_of g1 v \<noteq> None"
  proof (intro allI impI)
    fix u v assume e: "edgeInfo g1 u v \<noteq> None"
    show "map_of g1 v \<noteq> None"
    proof (cases "edgeInfo g u v = None")
      case True
      with g1(4) e have "v = s" by blast
      with skey show ?thesis by (simp del: not_None_eq)
    next
      case False
      with Cons.prems(1) have "map_of g v \<noteq> None" by blast
      then show ?thesis using map_of_same_keys [OF keys] by blast
    qed
  qed
  have p2: "\<forall>s' \<in> set ss. find (\<lambda>file. f_path file = s') vaultFiles \<noteq> None \<and> map_of g1 s' \<noteq> None"
  proof
    fix s' assume "s' \<in> set ss"
    with Cons.prems(2) have "find (\<lambda>file. f_path file = s') vaultFiles \<noteq> None" "map_of g s' \<noteq> None"
      by (simp_all del: not_None_eq)
    then show "find (\<lambda>file. f_path file = s') vaultFiles \<noteq> None \<and> map_of g1 s' \<noteq> None"
      using map_of_same_keys [OF keys] by blast
  qed
  have p3: "\<forall>u v. edgeInfo g1 u v \<noteq> None \<longrightarrow> u \<notin> set ss \<longrightarrow> edgeInfo g1 v u \<noteq> None"
  proof (intro allI impI)
    fix u v assume e: "edgeInfo g1 u v \<noteq> None" and u: "u \<notin> set ss"
    show "edgeInfo g1 v u \<noteq> None"
    proof (cases "edgeInfo g u v = None")
      case True
      with g1(4) e have "v = s" "u \<in> set ?ts" by blast+
      then have "edgeInfo g s u \<noteq> None" using ts by blast
      then have "edgeInfo g1 s u \<noteq> None" by (rule keep)
      then show ?thesis using \<open>v = s\<close> by (simp del: not_None_eq)
    next
      case False
      show ?thesis
      proof (cases "u = s")
        case True
        with False have "v \<in> set ?ts" using ts by blast
        with g1(3) True show ?thesis by blast
      next
        case False
        with u have "u \<notin> set (s # ss)" by simp
        with Cons.prems(3) \<open>edgeInfo g u v \<noteq> None\<close> have "edgeInfo g v u \<noteq> None" by blast
        then show ?thesis by (rule keep)
      qed
    qed
  qed
  from Cons.IH [OF p1 p2 p3] obtain g' where
    g': "backlinksOfSources vaultFiles ss g1 = Some g'" "backlinkExtension g1 g'"
        "\<forall>u v. edgeInfo g' u v \<noteq> None \<longrightarrow> edgeInfo g' v u \<noteq> None"
    by blast
  have run: "backlinksOfSources vaultFiles (s # ss) g = Some g'" using g1(1) g'(1) by simp
  have ext: "backlinkExtension g g'" by (rule backlinkExtension_trans [OF g1(2) g'(2)])
  show ?case by (intro exI conjI) (rule run, rule ext, rule g'(3))
qed

lemma keys_update: "fst ` set (AList.update k v al) = insert k (fst ` set al)"
  by (induction al) auto

lemma fold_init_keys:
  "fst ` set (fold (\<lambda>file graph. AList.update (f_path file) [] graph) files acc)
     = fst ` set acc \<union> f_path ` set files"
  by (induction files arbitrary: acc) (auto simp: keys_update)

lemma fold_init_targets:
  "allTargets (fold (\<lambda>file graph. AList.update (f_path file) [] graph) files acc)
     \<subseteq> allTargets acc"
proof (induction files arbitrary: acc)
  case Nil
  then show ?case by simp
next
  case (Cons a files)
  have "allTargets (AList.update (f_path a) [] acc) \<subseteq> allTargets acc"
    using allTargets_update [of "f_path a" "[]" acc] by simp
  with Cons.IH [of "AList.update (f_path a) [] acc"] show ?case by auto
qed

lemma fold_processFile:
  "map fst (fold (\<lambda>file graph. processFile settings vaultFiles file allFiles graph) fs g)
     = map fst g \<and>
   allTargets (fold (\<lambda>file graph. processFile settings vaultFiles file allFiles graph) fs g)
     \<subseteq> allTargets g \<union> f_path ` set vaultFiles \<union> f_path ` set allFiles"
proof (induction fs arbitrary: g)
  case Nil
  then show ?case by auto
next
  case (Cons a fs)
  let ?g1 = "processFile settings vaultFiles a allFiles g"
  have k: "map fst ?g1 = map fst g"
    using sameExcept_processFile [of a g settings vaultFiles allFiles]
    by (simp add: sameExcept_def)
  have t: "allTargets ?g1 \<subseteq> allTargets g \<union> f_path ` set vaultFiles \<union> f_path ` set allFiles"
    by (rule allTargets_processFile)
  from Cons.IH [of ?g1] k t show ?case by auto
qed

lemma forwardPasses_keys: "fst ` set (forwardPasses settings files) = f_path ` set files"
proof -
  have "fst ` set (forwardPasses settings files) = set (map fst (forwardPasses settings files))"
    by simp
  also have "\<dots> = set (map fst (initGraph files))"
    unfolding forwardPasses_def using fold_processFile [of settings files files files "initGraph files"]
    by simp
  also have "\<dots> = f_path ` set files"
    using fold_init_keys [of files "[]"] by (simp add: initGraph_def)
  finally show ?thesis .
qed

lemma forwardPasses_targets: "allTargets (forwardPasses settings files) \<subseteq> f_path ` set files"
proof -
  have "allTargets (initGraph files) \<subseteq> {}"
    using fold_init_targets [of files "[]"] by (simp add: initGraph_def allTargets_def)
  with fold_processFile [of settings files files files "initGraph files"]
  show ?thesis unfolding forwardPasses_def by auto
qed

lemma forwardPasses_closed: "graphClosed (forwardPasses settings files)"
  by (simp add: graphClosed_iff forwardPasses_keys forwardPasses_targets)

lemma backlinksOfSource_targets:
  "backlinksOfSource vaultFiles src ts g = Some g' \<Longrightarrow>
   allTargets g' \<subseteq> insert src (allTargets g) \<and> map fst g' = map fst g"
proof (induction ts arbitrary: g)
  case Nil
  then show ?case by auto
next
  case (Cons t ts)
  from Cons.prems obtain te where te: "map_of g t = Some te"
    by (cases "map_of g t") simp_all
  show ?case
  proof (cases "map_of te src = None")
    case False
    with Cons.prems te have "backlinksOfSource vaultFiles src ts g = Some g'"
      by (simp del: not_None_eq)
    from Cons.IH [OF this] show ?thesis .
  next
    case True
    show ?thesis
    proof (cases "find (\<lambda>file. f_path file = src) vaultFiles")
      case None
      with Cons.prems te True have "backlinksOfSource vaultFiles src ts g = Some g'" by simp
      from Cons.IH [OF this] show ?thesis .
    next
      case (Some sourceFile)
      let ?bl = "\<lparr> type = BACKLINK, commonTags = None, metadata = Some (getFileMetadata sourceFile) \<rparr>"
      let ?g1 = "AList.update t (AList.update src ?bl te) g"
      from Cons.prems te True Some have "backlinksOfSource vaultFiles src ts ?g1 = Some g'" by simp
      from Cons.IH [OF this]
      have r: "allTargets g' \<subseteq> insert src (allTargets ?g1)" "map fst g' = map fst ?g1" by simp_all
      have keys1: "map fst ?g1 = map fst g"
        using map_of_keys_mem [OF te] by (simp add: update_keys)
      from keys_update_subset [of src ?bl te] map_of_allTargets [OF te]
      have "fst ` set (AList.update src ?bl te) \<subseteq> insert src (allTargets g)" by blast
      with allTargets_update [of t "AList.update src ?bl te" g]
      have "allTargets ?g1 \<subseteq> insert src (allTargets g)" by blast
      with r keys1 show ?thesis by auto
    qed
  qed
qed

lemma backlinksOfSources_targets:
  "backlinksOfSources vaultFiles ss g = Some g' \<Longrightarrow>
   allTargets g' \<subseteq> set ss \<union> allTargets g \<and> map fst g' = map fst g"
proof (induction ss arbitrary: g)
  case Nil
  then show ?case by auto
next
  case (Cons s ss)
  from Cons.prems obtain g1 where
    g1: "backlinksOfSource vaultFiles s (map fst (neighborsOf g s)) g = Some g1"
    and rest: "backlinksOfSources vaultFiles ss g1 = Some g'"
    by (cases "backlinksOfSource vaultFiles s (map fst (neighborsOf g s)) g") simp_all
  from backlinksOfSource_targets [OF g1] Cons.IH [OF rest] show ?case by auto
qed

lemma same_keys_set: "map fst g' = map fst g \<Longrightarrow> fst ` set g' = fst ` set g"
  by (metis set_map)

lemma processBacklinks_closed:
  assumes "processBacklinks vaultFiles g = Some g'" and "graphClosed g"
  shows "graphClosed g'"
proof -
  from assms(1) have "backlinksOfSources vaultFiles (map fst g) g = Some g'"
    by (simp add: processBacklinks_def)
  from backlinksOfSources_targets [OF this]
  have t: "allTargets g' \<subseteq> fst ` set g \<union> allTargets g" and k: "map fst g' = map fst g"
    by simp_all
  from assms(2) have "allTargets g \<subseteq> fst ` set g" by (simp add: graphClosed_iff)
  with t same_keys_set [OF k] show ?thesis by (auto simp: graphClosed_iff)
qed

lemma find_path_Some: "p \<in> f_path ` set files \<Longrightarrow> find (\<lambda>file. f_path file = p) files \<noteq> None"
  by (auto simp: find_None_iff)

lemma graphClosed_edge_key:
  assumes "graphClosed g" and "edgeInfo g u v \<noteq> None"
  shows "map_of g v \<noteq> None"
proof -
  from edgeInfo_target [OF assms(2)] assms(1) have "v \<in> fst ` set g"
    by (auto simp: graphClosed_iff)
  then show ?thesis by (simp add: map_of_eq_None_iff del: not_None_eq)
qed

lemma processBacklinks_correct:
  assumes "graphClosed g" and "fst ` set g \<subseteq> f_path ` set vaultFiles"
  shows "\<exists>g'. processBacklinks vaultFiles g = Some g' \<and> backlinkExtension g g' \<and>
              (\<forall>u v. edgeInfo g' u v \<noteq> None \<longrightarrow> edgeInfo g' v u \<noteq> None)"
  unfolding processBacklinks_def
proof (rule backlinksOfSources_correct)
  show "\<forall>u v. edgeInfo g u v \<noteq> None \<longrightarrow> map_of g v \<noteq> None"
    using graphClosed_edge_key [OF assms(1)] by blast
next
  show "\<forall>s \<in> set (map fst g). find (\<lambda>file. f_path file = s) vaultFiles \<noteq> None \<and> map_of g s \<noteq> None"
  proof
    fix s assume s: "s \<in> set (map fst g)"
    with assms(2) have "s \<in> f_path ` set vaultFiles" by auto
    then have "find (\<lambda>file. f_path file = s) vaultFiles \<noteq> None" by (rule find_path_Some)
    moreover from s have "map_of g s \<noteq> None" by (simp add: map_of_eq_None_iff del: not_None_eq)
    ultimately show "find (\<lambda>file. f_path file = s) vaultFiles \<noteq> None \<and> map_of g s \<noteq> None" ..
  qed
next
  show "\<forall>u v. edgeInfo g u v \<noteq> None \<longrightarrow> u \<notin> set (map fst g) \<longrightarrow> edgeInfo g v u \<noteq> None"
  proof (intro allI impI)
    fix u v assume "edgeInfo g u v \<noteq> None" "u \<notin> set (map fst g)"
    then have False using edgeInfo_source_key [of g u v]
      by (simp add: map_of_eq_None_iff del: not_None_eq)
    then show "edgeInfo g v u \<noteq> None" ..
  qed
qed

lemma setEdge_missing: "map_of g source = None \<Longrightarrow> setEdge source target info g = Inl g"
  by (simp add: setEdge_def)

lemma addLinks_missing:
  "map_of g source = None \<Longrightarrow> graphOf (addLinks files kind source ms g) = g"
proof (induction ms)
  case Nil
  then show ?case by simp
next
  case (Cons m ms)
  then show ?case
    by (cases "findNoteByName files (linkText m)") (simp_all add: setEdge_missing)
qed

lemma addTagEdges_missing:
  "map_of g source = None \<Longrightarrow> graphOf (addTagEdges source entries g) = g"
proof (cases entries)
  case Nil
  then show ?thesis by simp
next
  case (Cons entry rest)
  assume "map_of g source = None"
  then show ?thesis using Cons by (cases entry) (simp add: setEdge_missing)
qed

lemma graphOf_Inr: "r = Inr g' \<Longrightarrow> graphOf r = g \<Longrightarrow> g' = g"
  by simp

lemma processFile_missing:
  assumes "map_of g (f_path file) = None"
  shows "processFile settings vaultFiles file allFiles g = g"
proof (cases "f_readFails file")
  case True
  then show ?thesis by (simp add: processFile_graphOf processFileBody_def)
next
  case False
  let ?r1 = "addLinks vaultFiles DIRECT (f_path file) (f_wikiMatches file) g"
  have s1: "graphOf ?r1 = g" by (rule addLinks_missing [OF assms])
  show ?thesis
  proof (cases ?r1)
    case (Inl thrown)
    with False s1 show ?thesis by (simp add: processFile_graphOf processFileBody_def)
  next
    case (Inr g1)
    with s1 have g1: "g1 = g" by simp
    let ?r2 = "if includeEmbeddedLinks settings
               then addLinks vaultFiles EMBEDDED (f_path file) (f_embeddedMatches file) g
               else Inr g"
    have s2: "graphOf ?r2 = g" by (simp add: addLinks_missing [OF assms])
    show ?thesis
    proof (cases ?r2)
      case (Inl thrown)
      with False Inr g1 s2 show ?thesis by (simp add: processFile_graphOf processFileBody_def)
    next
      case (Inr g2)
      with s2 have g2: "g2 = g" by simp
      have "graphOf (if includeTagsInAnalysis settings \<and> fileTags file \<noteq> []
                 then addTagEdges (f_path file)
                        (take MAX_TAG_MATCHES (sortedMatches file allFiles)) g
                 else Inr g) = g"
        by (simp add: addTagEdges_missing [OF assms])
      with False \<open>?r1 = Inr g1\<close> g1 Inr g2 show ?thesis
        by (simp add: processFile_graphOf processFileBody_def)
    qed
  qed
qed

lemma processFile_closed:
  assumes "graphClosed g"
    and "\<forall>file \<in> set vaultFiles. f_path file \<noteq> f_path changed \<longrightarrow> map_of g (f_path file) \<noteq> None"
  shows "graphClosed (processFile settings vaultFiles changed vaultFiles g)"
proof (cases "map_of g (f_path changed) = None")
  case True
  with assms(1) show ?thesis by (simp add: processFile_missing)
next
  case False
  let ?g' = "processFile settings vaultFiles changed vaultFiles g"
  have paths: "f_path ` set vaultFiles \<subseteq> fst ` set g"
  proof
    fix p assume "p \<in> f_path ` set vaultFiles"
    then obtain f where f: "f \<in> set vaultFiles" "p = f_path f" by blast
    with assms(2) False have "map_of g p \<noteq> None" by (cases "p = f_path changed") auto
    then show "p \<in> fst ` set g" by (simp add: map_of_eq_None_iff del: not_None_eq)
  qed
  have "map fst ?g' = map fst g"
    using sameExcept_processFile [of changed g settings vaultFiles vaultFiles]
    by (simp add: sameExcept_def)
  then have keys: "fst ` set ?g' = fst ` set g" by (rule same_keys_set)
  from assms(1) have "allTargets g \<subseteq> fst ` set g" by (simp add: graphClosed_iff)
  with allTargets_processFile [of settings vaultFiles changed vaultFiles g] paths
  have "allTargets ?g' \<subseteq> fst ` set g" by blast
  with keys show ?thesis by (simp add: graphClosed_iff)
qed

lemma create_closed: "graphClosed g \<Longrightarrow> graphClosed (AList.update p [] g)"
  using allTargets_update [of p "[]" g] by (auto simp: graphClosed_iff keys_update)

lemma delete_closed:
  assumes "graphClosed g"
  shows "graphClosed (map (\<lambda>(node, edges). (node, AList.delete p edges)) (AList.delete p g))"
proof -
  let ?g' = "map (\<lambda>(node, edges). (node, AList.delete p edges)) (AList.delete p g)"
  have keys: "fst ` set ?g' = fst ` set g - {p}"
    by (force simp: AList.delete_eq)
  have "allTargets ?g' \<subseteq> allTargets g - {p}"
    unfolding allTargets_def by (force simp: AList.delete_eq)
  with assms keys show ?thesis by (auto simp: graphClosed_iff)
qed

section \<open>What the clustering scores are\<close>

lemma set_dedupe [simp]: "set (dedupe xs) = set xs"
  by (simp add: dedupe_def)

lemma distinct_dedupe [simp]: "distinct (dedupe xs)"
  by (simp add: dedupe_def)

lemma outgoing_set:
  "set (map fst (neighborsOf graph node)) = {target. hasEdge graph node target}"
proof (intro set_eqI)
  fix t
  show "t \<in> set (map fst (neighborsOf graph node)) \<longleftrightarrow> t \<in> {target. hasEdge graph node target}"
    unfolding mem_Collect_eq hasEdge_def by (rule neighborsOf_edgeInfo)
qed

lemma incoming_set:
  assumes "distinct (map fst graph)"
  shows "set (map fst (filter (\<lambda>(source, targets). source \<noteq> node \<and> map_of targets node \<noteq> None) graph))
           = {source. source \<noteq> node \<and> hasEdge graph source node}"
proof (intro set_eqI iffI)
  fix s assume "s \<in> set (map fst (filter (\<lambda>(source, targets). source \<noteq> node \<and> map_of targets node \<noteq> None) graph))"
  then have "s \<in> fst ` set (filter (\<lambda>(source, targets). source \<noteq> node \<and> map_of targets node \<noteq> None) graph)"
    by simp
  then obtain entry where e: "entry \<in> set (filter (\<lambda>(source, targets). source \<noteq> node \<and> map_of targets node \<noteq> None) graph)"
    and s: "s = fst entry" by (rule imageE)
  obtain s' targets where entry: "entry = (s', targets)" by (cases entry)
  from e entry s have m: "(s, targets) \<in> set graph" and ne: "s \<noteq> node"
    and h: "map_of targets node \<noteq> None" by (simp_all del: not_None_eq)
  from assms m have "map_of graph s = Some targets" by (rule map_of_is_SomeI)
  with h have "hasEdge graph s node" by (simp add: hasEdge_def edgeInfo_def del: not_None_eq)
  with ne show "s \<in> {source. source \<noteq> node \<and> hasEdge graph source node}" by simp
next
  fix s assume "s \<in> {source. source \<noteq> node \<and> hasEdge graph source node}"
  then have ne: "s \<noteq> node" and h: "hasEdge graph s node" by simp_all
  from h obtain targets where t: "map_of graph s = Some targets" "map_of targets node \<noteq> None"
    by (cases "map_of graph s") (simp_all add: hasEdge_def edgeInfo_def del: not_None_eq)
  from t(1) have "(s, targets) \<in> set graph" by (rule map_of_SomeD)
  with ne t(2) have "(s, targets) \<in> set (filter (\<lambda>(source, targets). source \<noteq> node \<and> map_of targets node \<noteq> None) graph)"
    by (simp del: not_None_eq)
  then have "fst (s, targets) \<in> fst ` set (filter (\<lambda>(source, targets). source \<noteq> node \<and> map_of targets node \<noteq> None) graph)"
    by (rule imageI)
  then show "s \<in> set (map fst (filter (\<lambda>(source, targets). source \<noteq> node \<and> map_of targets node \<noteq> None) graph))"
    by simp
qed

lemma set_getNeighbors:
  assumes "distinct (map fst graph)"
  shows "set (getNeighbors graph node) = neighborSet graph node"
proof -
  have "set (getNeighbors graph node)
          = set (map fst (neighborsOf graph node)) \<union>
            set (map fst (filter (\<lambda>(source, targets). source \<noteq> node \<and> map_of targets node \<noteq> None) graph))"
    by (simp only: getNeighbors_def Let_def set_dedupe set_append)
  also have "\<dots> = {target. hasEdge graph node target} \<union> {source. source \<noteq> node \<and> hasEdge graph source node}"
    by (simp only: outgoing_set incoming_set [OF assms])
  also have "\<dots> = neighborSet graph node"
    unfolding neighborSet_def by blast
  finally show ?thesis .
qed

lemma length_getNeighbors:
  assumes "distinct (map fst graph)"
  shows "length (getNeighbors graph node) = card (neighborSet graph node)"
proof -
  have "distinct (getNeighbors graph node)" by (simp add: getNeighbors_def Let_def)
  then have "card (set (getNeighbors graph node)) = length (getNeighbors graph node)"
    by (rule distinct_card)
  with set_getNeighbors [OF assms] show ?thesis by simp
qed

lemma clusteringOfNode_few:
  "length (getNeighbors graph node) < 2 \<Longrightarrow> clusteringOfNode graph node = 0"
  by (simp add: clusteringOfNode_def Let_def)

definition scoresOf :: "EnhancedGraph \<Rightarrow> (string \<times> real) list \<Rightarrow> bool" where
  "scoresOf graph result \<longleftrightarrow>
     (\<forall>node score. map_of result node = Some score \<longrightarrow> score = clusteringOfNode graph node)"

lemma scoresOf_batch:
  "scoresOf graph result \<Longrightarrow>
   scoresOf graph (fold (\<lambda>node r. AList.update node (clusteringOfNode graph node) r) batch result)"
proof (induction batch arbitrary: result)
  case Nil
  then show ?case by simp
next
  case (Cons a batch)
  from Cons.prems have "scoresOf graph (AList.update a (clusteringOfNode graph a) result)"
    by (simp add: scoresOf_def update_conv')
  from Cons.IH [OF this] show ?case by simp
qed

lemma batch_keys:
  "fst ` set (fold (\<lambda>node r. AList.update node (clusteringOfNode graph node) r) batch result)
     = fst ` set result \<union> set batch"
  by (induction batch arbitrary: result) (auto simp: keys_update)

lemma scoresOf_clusteringBatches:
  "scoresOf graph result \<Longrightarrow> scoresOf graph (clusteringBatches graph cancelled pathNodes i result)"
proof (induction graph cancelled pathNodes i result rule: clusteringBatches.induct)
  case (1 graph cancelled pathNodes i result)
  show ?case
  proof (cases "i < length pathNodes \<and> \<not> cancelled i")
    case False
    with "1.prems" show ?thesis by (subst clusteringBatches.simps) auto
  next
    case True
    let ?r = "fold (\<lambda>node r. AList.update node (clusteringOfNode graph node) r)
                (take 3 (drop i pathNodes)) result"
    from True have a: "i < length pathNodes" and b: "\<not> cancelled i" by simp_all
    from "1.IH" [OF a b scoresOf_batch [OF "1.prems"]]
    have "scoresOf graph (clusteringBatches graph cancelled pathNodes (i + 3) ?r)" .
    with True show ?thesis by (subst clusteringBatches.simps) simp
  qed
qed

lemma clusteringBatches_keys_mono:
  "fst ` set result \<subseteq> fst ` set (clusteringBatches graph cancelled pathNodes i result)"
proof (induction graph cancelled pathNodes i result rule: clusteringBatches.induct)
  case (1 graph cancelled pathNodes i result)
  show ?case
  proof (cases "i < length pathNodes \<and> \<not> cancelled i")
    case False
    then show ?thesis by (subst clusteringBatches.simps) auto
  next
    case True
    let ?r = "fold (\<lambda>node r. AList.update node (clusteringOfNode graph node) r)
                (take 3 (drop i pathNodes)) result"
    from True have a: "i < length pathNodes" and b: "\<not> cancelled i" by simp_all
    from "1.IH" [OF a b]
    have "fst ` set ?r \<subseteq> fst ` set (clusteringBatches graph cancelled pathNodes (i + 3) ?r)" .
    moreover have "fst ` set result \<subseteq> fst ` set ?r" by (simp add: batch_keys)
    ultimately have "fst ` set result \<subseteq> fst ` set (clusteringBatches graph cancelled pathNodes (i + 3) ?r)"
      by blast
    with True show ?thesis by (subst clusteringBatches.simps) simp
  qed
qed

lemma clusteringBatches_reached:
  assumes "i \<le> k" and "k < length pathNodes" and "\<forall>j. j \<le> k \<longrightarrow> \<not> cancelled j"
  shows "pathNodes ! k \<in> fst ` set (clusteringBatches graph cancelled pathNodes i result)"
  using assms
proof (induction graph cancelled pathNodes i result rule: clusteringBatches.induct)
  case (1 graph cancelled pathNodes i result)
  let ?r = "fold (\<lambda>node r. AList.update node (clusteringOfNode graph node) r)
              (take 3 (drop i pathNodes)) result"
  from "1.prems" have a: "i < length pathNodes" and b: "\<not> cancelled i" by auto
  have unfold: "clusteringBatches graph cancelled pathNodes i result
                  = clusteringBatches graph cancelled pathNodes (i + 3) ?r"
    using a b by (subst clusteringBatches.simps) simp
  show ?case
  proof (cases "k < i + 3")
    case True
    with "1.prems" have "pathNodes ! k \<in> set (take 3 (drop i pathNodes))"
    proof -
      have "k - i < length (take 3 (drop i pathNodes))" using True "1.prems" by auto
      moreover have "take 3 (drop i pathNodes) ! (k - i) = pathNodes ! k" using True "1.prems" by simp
      ultimately show ?thesis by (metis nth_mem)
    qed
    then have "pathNodes ! k \<in> fst ` set ?r" by (simp add: batch_keys)
    with clusteringBatches_keys_mono [of ?r graph cancelled pathNodes "i + 3"] unfold
    show ?thesis by auto
  next
    case False
    then have "i + 3 \<le> k" by simp
    from "1.IH" [OF a b this "1.prems"(2) "1.prems"(3)] unfold show ?thesis by simp
  qed
qed

section \<open>The bidirectional search returns\<close>















section \<open>A two-note vault\<close>

text \<open>\<open>A.md\<close> holds one wiki link, to \<open>B\<close>; \<open>B.md\<close> holds none.\<close>

definition noteA :: TFile where
  "noteA = \<lparr> f_path = ''A.md'', f_basename = ''A'', f_readFails = False,
             f_wikiMatches = [''B''], f_embeddedMatches = [], f_tags = [] \<rparr>"

definition noteB :: TFile where
  "noteB = \<lparr> f_path = ''B.md'', f_basename = ''B'', f_readFails = False,
             f_wikiMatches = [], f_embeddedMatches = [], f_tags = [] \<rparr>"

text \<open>The note \<open>A.md\<close> after an edit that removes its link.\<close>

definition noteA_edited :: TFile where
  "noteA_edited = noteA\<lparr> f_wikiMatches := [] \<rparr>"

definition metaA :: Metadata where
  "metaA = \<lparr> title = Some ''A'', tags = Some [], excerpt = None \<rparr>"

definition metaB :: Metadata where
  "metaB = \<lparr> title = Some ''B'', tags = Some [], excerpt = None \<rparr>"

definition graphAB :: EnhancedGraph where
  "graphAB =
     [(''A.md'', [(''B.md'', \<lparr> type = DIRECT, commonTags = None, metadata = Some metaB \<rparr>)]),
      (''B.md'', [(''A.md'', \<lparr> type = BACKLINK, commonTags = None, metadata = Some metaA \<rparr>)])]"

text \<open>A graph with the edge from \<open>A.md\<close> to \<open>B.md\<close> and no entry for \<open>B.md\<close>.\<close>

definition danglingGraph :: EnhancedGraph where
  "danglingGraph =
     [(''A.md'', [(''B.md'', \<lparr> type = DIRECT, commonTags = None, metadata = Some metaB \<rparr>)])]"

lemma buildGraph_noteAB: "buildGraph DEFAULT_SETTINGS [noteA, noteB] = Some graphAB"
  by code_simp

lemma forwardPasses_noteAB:
  "forwardPasses DEFAULT_SETTINGS [noteA, noteB] =
     [(''A.md'', [(''B.md'', \<lparr> type = DIRECT, commonTags = None, metadata = Some metaB \<rparr>)]),
      (''B.md'', [])]"
  by code_simp

section \<open>The backlink pass (claim C7)\<close>

text \<open>
  C7: when backlink inference is enabled, \<open>buildGraph\<close> returns a graph in which every
  edge found by the forward passes whose target had no edge back to its source has a
  Backlink edge from the target to the source; and every edge of the returned graph has
  a reverse edge.
\<close>

theorem C7_backlink_pass:
  assumes "includeBacklinks settings"
  shows "\<exists>graph. buildGraph settings files = Some graph \<and>
           (\<forall>source target.
              hasEdge (forwardPasses settings files) source target \<longrightarrow>
              \<not> hasEdge (forwardPasses settings files) target source \<longrightarrow>
              (\<exists>info. edgeInfo graph target source = Some info \<and> type info = BACKLINK)) \<and>
           (\<forall>u v. hasEdge graph u v \<longrightarrow> hasEdge graph v u)"
proof -
  let ?g0 = "forwardPasses settings files"
  have "fst ` set ?g0 \<subseteq> f_path ` set files" by (simp add: forwardPasses_keys)
  from processBacklinks_correct [OF forwardPasses_closed this] obtain g' where
    run: "processBacklinks files ?g0 = Some g'" and ext: "backlinkExtension ?g0 g'"
    and sym: "\<forall>u v. edgeInfo g' u v \<noteq> None \<longrightarrow> edgeInfo g' v u \<noteq> None"
    by blast
  have build: "buildGraph settings files = Some g'"
    using assms run by (simp add: buildGraph_def)
  have blk: "\<exists>info. edgeInfo g' t s = Some info \<and> type info = BACKLINK"
    if "hasEdge ?g0 s t" "\<not> hasEdge ?g0 t s" for s t
  proof -
    from that(1) have "edgeInfo ?g0 s t \<noteq> None" by (simp add: hasEdge_def)
    from backlinkExtension_keep [OF ext this] sym have "edgeInfo g' t s \<noteq> None" by blast
    then obtain info where info: "edgeInfo g' t s = Some info" by blast
    from that(2) have "edgeInfo ?g0 t s = None" by (simp add: hasEdge_def)
    with ext info have "type info = BACKLINK" unfolding backlinkExtension_def by blast
    with info show ?thesis by blast
  qed
  have sym': "\<forall>u v. hasEdge g' u v \<longrightarrow> hasEdge g' v u"
    using sym by (simp add: hasEdge_def del: not_None_eq)
  from build blk sym' show ?thesis by blast
qed

theorem C7_backlink_pass_witness:
  "includeBacklinks DEFAULT_SETTINGS \<and>
   hasEdge (forwardPasses DEFAULT_SETTINGS [noteA, noteB]) ''A.md'' ''B.md'' \<and>
   \<not> hasEdge (forwardPasses DEFAULT_SETTINGS [noteA, noteB]) ''B.md'' ''A.md'' \<and>
   (\<exists>graph info. buildGraph DEFAULT_SETTINGS [noteA, noteB] = Some graph \<and>
      edgeInfo graph ''B.md'' ''A.md'' = Some info \<and> type info = BACKLINK \<and>
      hasEdge graph ''B.md'' ''A.md'')"
proof -
  have h: "includeBacklinks DEFAULT_SETTINGS" by (simp add: DEFAULT_SETTINGS_def)
  have e1: "hasEdge (forwardPasses DEFAULT_SETTINGS [noteA, noteB]) ''A.md'' ''B.md''"
    by (simp add: forwardPasses_noteAB hasEdge_def edgeInfo_def)
  have e2: "\<not> hasEdge (forwardPasses DEFAULT_SETTINGS [noteA, noteB]) ''B.md'' ''A.md''"
    by (simp add: forwardPasses_noteAB hasEdge_def edgeInfo_def)
  from C7_backlink_pass [OF h, of "[noteA, noteB]"] obtain graph where
    g: "buildGraph DEFAULT_SETTINGS [noteA, noteB] = Some graph"
    and b: "\<forall>source target.
              hasEdge (forwardPasses DEFAULT_SETTINGS [noteA, noteB]) source target \<longrightarrow>
              \<not> hasEdge (forwardPasses DEFAULT_SETTINGS [noteA, noteB]) target source \<longrightarrow>
              (\<exists>info. edgeInfo graph target source = Some info \<and> type info = BACKLINK)"
    by blast
  from b e1 e2 obtain info where
    i: "edgeInfo graph ''B.md'' ''A.md'' = Some info" "type info = BACKLINK" by blast
  then have "hasEdge graph ''B.md'' ''A.md''" by (simp add: hasEdge_def)
  with h e1 e2 g i show ?thesis by blast
qed

section \<open>The graph invariant (claim C4)\<close>

text \<open>
  C4, as stated: the invariant (every edge target has its own entry) holds for the graph
  that \<open>buildGraph\<close> returns and is preserved by \<open>updateGraphCache\<close> for every change
  kind. The second part fails when the vault holds a document that the cached graph has
  no entry for: the cache built for the vault with \<open>A.md\<close> alone is closed, and after
  \<open>B.md\<close> has appeared a modify of \<open>A.md\<close>, whose link to \<open>B\<close> now resolves, writes an
  edge to a node without entry.
\<close>

theorem C4_counterexample:
  "buildGraph DEFAULT_SETTINGS [noteA] = Some [(''A.md'', [])] \<and>
   graphClosed [(''A.md'', [])] \<and>
   cachedGraph (updateGraphCache DEFAULT_SETTINGS [noteA, noteB] 2 noteA Modify
                  \<lparr> cachedGraph = Some [(''A.md'', [])], lastCacheTime = 1 \<rparr>)
     = Some [(''A.md'', [(''B.md'', \<lparr> type = DIRECT, commonTags = None,
                                       metadata = Some metaB \<rparr>)])] \<and>
   \<not> graphClosed [(''A.md'', [(''B.md'', \<lparr> type = DIRECT, commonTags = None,
                                          metadata = Some metaB \<rparr>)])]"
  by code_simp

text \<open>
  C4, amended: every edge target has its own entry in the graph returned by \<open>buildGraph\<close>
  (which does return one); and \<open>updateGraphCache\<close> preserves this for a delete always,
  and for a create or modify when every document of the vault other than the changed one
  has an entry in the cached graph.
\<close>

theorem C4_graph_closed:
  "(\<exists>graph. buildGraph settings files = Some graph \<and> graphClosed graph) \<and>
   (cachedGraph st = Some cached \<and> graphClosed cached \<and>
    (changeType \<noteq> Delete \<longrightarrow>
       (\<forall>file \<in> set vaultFiles.
          f_path file \<noteq> f_path changedFile \<longrightarrow> map_of cached (f_path file) \<noteq> None))
    \<longrightarrow> (\<exists>cached'.
           cachedGraph (updateGraphCache settings' vaultFiles now changedFile changeType st)
             = Some cached' \<and> graphClosed cached'))"
proof (intro conjI impI)
  show "\<exists>graph. buildGraph settings files = Some graph \<and> graphClosed graph"
  proof (cases "includeBacklinks settings")
    case False
    then show ?thesis by (simp add: buildGraph_def forwardPasses_closed)
  next
    case True
    have "fst ` set (forwardPasses settings files) \<subseteq> f_path ` set files"
      by (simp add: forwardPasses_keys)
    from processBacklinks_correct [OF forwardPasses_closed this] obtain g' where
      run: "processBacklinks files (forwardPasses settings files) = Some g'" by blast
    from processBacklinks_closed [OF run forwardPasses_closed] run True
    show ?thesis by (simp add: buildGraph_def)
  qed
next
  assume a: "cachedGraph st = Some cached \<and> graphClosed cached \<and>
    (changeType \<noteq> Delete \<longrightarrow>
       (\<forall>file \<in> set vaultFiles.
          f_path file \<noteq> f_path changedFile \<longrightarrow> map_of cached (f_path file) \<noteq> None))"
  then have c: "cachedGraph st = Some cached" and cl: "graphClosed cached" by simp_all
  show "\<exists>cached'.
           cachedGraph (updateGraphCache settings' vaultFiles now changedFile changeType st)
             = Some cached' \<and> graphClosed cached'"
  proof (cases "cacheGraphStructure settings'")
    case False
    with c cl show ?thesis by (simp add: updateGraphCache_def)
  next
    case True
    show ?thesis
    proof (cases "changeType = Delete")
      case del: True
      with c True delete_closed [OF cl, of "f_path changedFile"] show ?thesis
        by (simp add: updateGraphCache_def)
    next
      case False
      with a have others: "\<forall>file \<in> set vaultFiles.
          f_path file \<noteq> f_path changedFile \<longrightarrow> map_of cached (f_path file) \<noteq> None" by simp
      let ?g1 = "if changeType = Create then AList.update (f_path changedFile) [] cached else cached"
      have cl1: "graphClosed ?g1" using cl by (simp add: create_closed)
      have o1: "\<forall>file \<in> set vaultFiles.
          f_path file \<noteq> f_path changedFile \<longrightarrow> map_of ?g1 (f_path file) \<noteq> None"
        using others by (simp add: update_conv' del: not_None_eq)
      from processFile_closed [OF cl1 o1, of settings'] c True False show ?thesis
        by (simp add: updateGraphCache_def)
    qed
  qed
qed

theorem C4_graph_closed_witness:
  "buildGraph DEFAULT_SETTINGS [noteA, noteB] = Some graphAB \<and> graphClosed graphAB \<and>
   map_of graphAB (f_path noteB) \<noteq> None \<and>
   (\<exists>cached'.
      cachedGraph (updateGraphCache DEFAULT_SETTINGS [noteA_edited, noteB] 2 noteA_edited Modify
                     \<lparr> cachedGraph = Some graphAB, lastCacheTime = 1 \<rparr>) = Some cached' \<and>
      graphClosed cached')"
proof -
  have b: "buildGraph DEFAULT_SETTINGS [noteA, noteB] = Some graphAB" by (rule buildGraph_noteAB)
  from C4_graph_closed [of DEFAULT_SETTINGS "[noteA, noteB]"] b
  have cl: "graphClosed graphAB" by auto
  have k: "map_of graphAB (f_path noteB) \<noteq> None" by (simp add: graphAB_def noteB_def)
  have o: "\<forall>file \<in> set [noteA_edited, noteB].
          f_path file \<noteq> f_path noteA_edited \<longrightarrow> map_of graphAB (f_path file) \<noteq> None"
    using k by (simp del: not_None_eq)
  from C4_graph_closed [of DEFAULT_SETTINGS "[noteA, noteB]"
      "\<lparr> cachedGraph = Some graphAB, lastCacheTime = 1 \<rparr>" graphAB Modify
      "[noteA_edited, noteB]" noteA_edited DEFAULT_SETTINGS 2] cl o
  have "\<exists>cached'.
      cachedGraph (updateGraphCache DEFAULT_SETTINGS [noteA_edited, noteB] 2 noteA_edited Modify
                     \<lparr> cachedGraph = Some graphAB, lastCacheTime = 1 \<rparr>) = Some cached' \<and>
      graphClosed cached'"
    by simp
  with b cl k show ?thesis by blast
qed

section \<open>Incremental modify (claims C3 and C10)\<close>

text \<open>
  C3 (the code does not do what the claim says): the cache built for \<open>A.md\<close> linking to
  \<open>B.md\<close> holds the edge from \<open>A.md\<close> to \<open>B.md\<close>. After the link is removed from \<open>A.md\<close>
  the extraction finds no edge for it, yet after \<open>updateGraphCache\<close> with \<open>modify\<close> the
  entry of \<open>A.md\<close> still holds the edge: \<open>processFile\<close> writes into the adjacency map
  that is there and nothing empties it first.
\<close>

theorem C3_modify_keeps_stale_edge:
  "buildGraph DEFAULT_SETTINGS [noteA, noteB] = Some graphAB \<and>
   extractedEdges DEFAULT_SETTINGS [noteA_edited, noteB] noteA_edited = [] \<and>
   cachedGraph (updateGraphCache DEFAULT_SETTINGS [noteA_edited, noteB] 2 noteA_edited Modify
                  \<lparr> cachedGraph = Some graphAB, lastCacheTime = 1 \<rparr>) = Some graphAB \<and>
   map_of graphAB ''A.md''
     = Some [(''B.md'', \<lparr> type = DIRECT, commonTags = None, metadata = Some metaB \<rparr>)]"
  by code_simp

text \<open>
  C10: \<open>updateGraphCache(document, 'modify')\<close> on a cached graph leaves the adjacency
  mapping of every node other than the modified document as it was (the same targets
  with the same payloads in the same order), and the nodes of the graph and their order
  are the same.
\<close>

theorem C10_modify_frame:
  assumes "cachedGraph st = Some cached" and "node \<noteq> f_path changedFile"
  shows "\<exists>cached'.
           cachedGraph (updateGraphCache settings vaultFiles now changedFile Modify st)
             = Some cached' \<and>
           map fst cached' = map fst cached \<and> map_of cached' node = map_of cached node"
proof (cases "cacheGraphStructure settings")
  case False
  with assms(1) show ?thesis by (simp add: updateGraphCache_def)
next
  case True
  from sameExcept_processFile [of changedFile cached settings vaultFiles vaultFiles] assms(2)
  have "map fst (processFile settings vaultFiles changedFile vaultFiles cached) = map fst cached"
    "map_of (processFile settings vaultFiles changedFile vaultFiles cached) node = map_of cached node"
    by (simp_all add: sameExcept_def)
  with True assms(1) show ?thesis by (simp add: updateGraphCache_def)
qed

theorem C10_modify_frame_witness:
  "cachedGraph \<lparr> cachedGraph = Some graphAB, lastCacheTime = 1 \<rparr> = Some graphAB \<and>
   ''B.md'' \<noteq> f_path noteA_edited \<and>
   (\<exists>cached'.
      cachedGraph (updateGraphCache DEFAULT_SETTINGS [noteA_edited, noteB] 2 noteA_edited Modify
                     \<lparr> cachedGraph = Some graphAB, lastCacheTime = 1 \<rparr>) = Some cached' \<and>
      map fst cached' = map fst graphAB \<and> map_of cached' ''B.md'' = map_of graphAB ''B.md'')"
proof -
  have c: "cachedGraph \<lparr> cachedGraph = Some graphAB, lastCacheTime = 1 \<rparr> = Some graphAB"
    by simp
  have n: "''B.md'' \<noteq> f_path noteA_edited" by (simp add: noteA_edited_def noteA_def)
  from C10_modify_frame [OF c n, of DEFAULT_SETTINGS "[noteA_edited, noteB]" 2] c n
  show ?thesis by blast
qed

section \<open>Missing endpoints (claim C5)\<close>

text \<open>
  C5, as stated: whenever at least one endpoint has no entry in the graph,
  \<open>findShortestPath\<close> returns distance -1 with empty path and empty connectionTypes.
  The test \<open>start === end\<close> comes first in the source, so for equal endpoints that have
  no entry the result is distance 0 and the one-node path: the statement fails on the
  empty graph.
\<close>

theorem C5_counterexample:
  "map_of ([] :: EnhancedGraph) ''x.md'' = None \<and>
   findShortestPath DEFAULT_SETTINGS [] ''x.md'' ''x.md''
     = Some \<lparr> distance = 0, path = [''x.md''], connectionTypes = [] \<rparr> \<and>
   findShortestPath DEFAULT_SETTINGS [] ''x.md'' ''x.md'' \<noteq> Some noPath"
  by (simp add: findShortestPath_def noPath_def)

text \<open>
  C5, amended: for every graph and every pair of distinct start and end identifiers
  where at least one endpoint has no entry in the graph, \<open>findShortestPath\<close> returns
  distance -1 with empty path and empty connectionTypes, whatever the settings.
\<close>

theorem C5_missing_endpoint:
  assumes "start \<noteq> end"
    and "map_of graph start = None \<or> map_of graph end = None"
  shows "findShortestPath settings graph start end
           = Some \<lparr> distance = - 1, path = [], connectionTypes = [] \<rparr>"
  using assms by (simp add: findShortestPath_def noPath_def)

theorem C5_missing_endpoint_witness:
  "''a.md'' \<noteq> ''b.md'' \<and>
   (map_of [(''a.md'', [(''b.md'', directEdge)])] ''a.md'' = None \<or>
    map_of [(''a.md'', [(''b.md'', directEdge)])] ''b.md'' = None) \<and>
   findShortestPath DEFAULT_SETTINGS [(''a.md'', [(''b.md'', directEdge)])] ''a.md'' ''b.md''
     = Some \<lparr> distance = - 1, path = [], connectionTypes = [] \<rparr>"
  using C5_missing_endpoint [of "''a.md''" "''b.md''" "[(''a.md'', [(''b.md'', directEdge)])]"
          DEFAULT_SETTINGS]
  by simp

section \<open>The results of findAllPaths (claim C6)\<close>









section \<open>Shortest paths on graphs of 500 nodes and more (claims C1 and C2)\<close>

text \<open>
  512 notes without any edge, \<open>n000.md\<close> to \<open>n777.md\<close>: they bring a graph over the
  threshold of 500 nodes at which \<open>findShortestPath\<close> turns to the bidirectional search.
\<close>

definition isolatedNotes :: EnhancedGraph where
  "isolatedNotes =
     map (\<lambda>(x, y, z). ([CHR ''n'', x, y, z] @ ''.md'', []))
       (List.product ''01234567'' (List.product ''01234567'' ''01234567''))"

text \<open>\<open>A.md\<close> links to \<open>B1.md\<close> and \<open>B2.md\<close>, and \<open>B1.md\<close> links to \<open>C.md\<close>.\<close>

definition forkGraph :: EnhancedGraph where
  "forkGraph =
     [(''A.md'', [(''B1.md'', directEdge), (''B2.md'', directEdge)]),
      (''B1.md'', [(''C.md'', directEdge)]),
      (''B2.md'', []),
      (''C.md'', [])] @ isolatedNotes"

text \<open>A chain of ten links, from \<open>c00.md\<close> to \<open>c10.md\<close>.\<close>

definition chainGraph :: EnhancedGraph where
  "chainGraph =
     [(''c00.md'', [(''c01.md'', directEdge)]), (''c01.md'', [(''c02.md'', directEdge)]),
      (''c02.md'', [(''c03.md'', directEdge)]), (''c03.md'', [(''c04.md'', directEdge)]),
      (''c04.md'', [(''c05.md'', directEdge)]), (''c05.md'', [(''c06.md'', directEdge)]),
      (''c06.md'', [(''c07.md'', directEdge)]), (''c07.md'', [(''c08.md'', directEdge)]),
      (''c08.md'', [(''c09.md'', directEdge)]), (''c09.md'', [(''c10.md'', directEdge)]),
      (''c10.md'', [])] @ isolatedNotes"

lemma length_isolatedNotes: "length isolatedNotes = 512"
  by (simp add: isolatedNotes_def)

text \<open>
  C1 (the code does not do what the claim says): on \<open>forkGraph\<close>, 516 nodes, with the
  default settings, \<open>findShortestPath\<close> runs the bidirectional search, the two searches
  meet at \<open>B1.md\<close>, and the result has the three-node path with one payload only: the
  payload of the last hop, from \<open>B1.md\<close> to \<open>C.md\<close>, is missing. The single-source
  search, chosen by the preference \<open>original\<close>, returns both payloads for the same path.
\<close>

theorem C1_bidirectional_drops_last_payload:
  "length forkGraph = 516 \<and>
   findShortestPath DEFAULT_SETTINGS forkGraph ''A.md'' ''C.md''
     = Some \<lparr> distance = 2, path = [''A.md'', ''B1.md'', ''C.md''],
              connectionTypes = [directEdge] \<rparr> \<and>
   findShortestPath (DEFAULT_SETTINGS\<lparr> algorithmPreference := PrefOriginal \<rparr>) forkGraph
       ''A.md'' ''C.md''
     = Some \<lparr> distance = 2, path = [''A.md'', ''B1.md'', ''C.md''],
              connectionTypes = [directEdge, directEdge] \<rparr>"
proof -
  have len: "length forkGraph = 516" by (simp add: forkGraph_def length_isolatedNotes)
  have bi: "findShortestPathBidirectional DEFAULT_SETTINGS forkGraph ''A.md'' ''C.md''
     = Some \<lparr> distance = 2, path = [''A.md'', ''B1.md'', ''C.md''],
              connectionTypes = [directEdge] \<rparr>"
    by code_simp
  have orig: "findShortestPathOriginal (DEFAULT_SETTINGS\<lparr> algorithmPreference := PrefOriginal \<rparr>)
       forkGraph ''A.md'' ''C.md''
     = \<lparr> distance = 2, path = [''A.md'', ''B1.md'', ''C.md''],
         connectionTypes = [directEdge, directEdge] \<rparr>"
    by code_simp
  have ends: "map_of forkGraph ''A.md'' \<noteq> None" "map_of forkGraph ''C.md'' \<noteq> None"
    by (simp_all add: forkGraph_def)
  have sel: "findShortestPath s forkGraph ''A.md'' ''C.md''
       = (if algorithmPreference s = PrefOriginal
          then Some (findShortestPathOriginal s forkGraph ''A.md'' ''C.md'')
          else findShortestPathBidirectional s forkGraph ''A.md'' ''C.md'')" for s
    using len ends by (simp add: findShortestPath_def del: not_None_eq)
  have auto: "algorithmPreference DEFAULT_SETTINGS = PrefAuto"
    by (simp add: DEFAULT_SETTINGS_def)
  show ?thesis
    by (simp add: sel len bi orig auto)
qed

text \<open>
  C2 (the code does not do what the claim says): on \<open>chainGraph\<close>, 523 nodes, with the
  default maximum path length of 10, the single-source search finds no path from
  \<open>c00.md\<close> to \<open>c10.md\<close> (an entry whose distance has reached the bound is dropped
  before it is compared with the end node) and the bidirectional search returns
  distance 10; \<open>findShortestPath\<close> gives the one or the other by the preference.
\<close>

theorem C2_strategies_disagree:
  "length chainGraph = 523 \<and>
   findShortestPathOriginal DEFAULT_SETTINGS chainGraph ''c00.md'' ''c10.md''
     = \<lparr> distance = - 1, path = [], connectionTypes = [] \<rparr> \<and>
   findShortestPathBidirectional DEFAULT_SETTINGS chainGraph ''c00.md'' ''c10.md''
     = Some \<lparr> distance = 10,
              path = [''c00.md'', ''c01.md'', ''c02.md'', ''c03.md'', ''c04.md'', ''c05.md'',
                      ''c06.md'', ''c07.md'', ''c08.md'', ''c09.md'', ''c10.md''],
              connectionTypes = replicate 10 directEdge \<rparr> \<and>
   findShortestPath (DEFAULT_SETTINGS\<lparr> algorithmPreference := PrefOriginal \<rparr>) chainGraph
       ''c00.md'' ''c10.md''
     = Some \<lparr> distance = - 1, path = [], connectionTypes = [] \<rparr> \<and>
   findShortestPath DEFAULT_SETTINGS chainGraph ''c00.md'' ''c10.md''
     = Some \<lparr> distance = 10,
              path = [''c00.md'', ''c01.md'', ''c02.md'', ''c03.md'', ''c04.md'', ''c05.md'',
                      ''c06.md'', ''c07.md'', ''c08.md'', ''c09.md'', ''c10.md''],
              connectionTypes = replicate 10 directEdge \<rparr>"
proof -
  have len: "length chainGraph = 523" by (simp add: chainGraph_def length_isolatedNotes)
  have orig: "findShortestPathOriginal DEFAULT_SETTINGS chainGraph ''c00.md'' ''c10.md''
     = \<lparr> distance = - 1, path = [], connectionTypes = [] \<rparr>"
    by code_simp
  have bi: "findShortestPathBidirectional DEFAULT_SETTINGS chainGraph ''c00.md'' ''c10.md''
     = Some \<lparr> distance = 10,
              path = [''c00.md'', ''c01.md'', ''c02.md'', ''c03.md'', ''c04.md'', ''c05.md'',
                      ''c06.md'', ''c07.md'', ''c08.md'', ''c09.md'', ''c10.md''],
              connectionTypes = replicate 10 directEdge \<rparr>"
    by code_simp
  have orig': "findShortestPathOriginal (DEFAULT_SETTINGS\<lparr> algorithmPreference := PrefOriginal \<rparr>)
                 chainGraph ''c00.md'' ''c10.md''
               = findShortestPathOriginal DEFAULT_SETTINGS chainGraph ''c00.md'' ''c10.md''"
    by (simp add: findShortestPathOriginal_def)
  have ends: "map_of chainGraph ''c00.md'' \<noteq> None" "map_of chainGraph ''c10.md'' \<noteq> None"
    by (simp_all add: chainGraph_def)
  have sel: "findShortestPath s chainGraph ''c00.md'' ''c10.md''
       = (if algorithmPreference s = PrefOriginal
          then Some (findShortestPathOriginal s chainGraph ''c00.md'' ''c10.md'')
          else findShortestPathBidirectional s chainGraph ''c00.md'' ''c10.md'')" for s
    using len ends by (simp add: findShortestPath_def del: not_None_eq)
  have auto: "algorithmPreference DEFAULT_SETTINGS = PrefAuto"
    by (simp add: DEFAULT_SETTINGS_def)
  show ?thesis
    by (simp add: sel len bi orig orig' auto)
qed

section \<open>Nodes with fewer than two neighbours (claim C9)\<close>

text \<open>
  C9, as stated: \<open>calculateClusteringCoefficient\<close> assigns the score 0 to every path node
  that has fewer than two neighbours. The loop reads the cancellation flag before every
  batch and returns what it has when the flag is set: cancelled before the first batch,
  the analysis assigns no score at all, also to a node without neighbours.
\<close>

theorem C9_counterexample:
  "card (neighborSet [(''A.md'', [])] ''A.md'') = 0 \<and>
   map_of (calculateClusteringCoefficient [(''A.md'', [])] (\<lambda>i. True) [''A.md'']) ''A.md'' = None"
proof -
  have "neighborSet [(''A.md'', [])] ''A.md'' = {}"
    by (auto simp: neighborSet_def hasEdge_def edgeInfo_def)
  then show ?thesis by (simp add: calculateClusteringCoefficient_def clusteringBatches.simps)
qed

text \<open>
  C9, amended: for every graph (an object: its keys are distinct) and path, a path node
  whose neighbour set, the union of its outgoing edge targets and of the nodes with an
  edge targeting it, has fewer than 2 elements never gets a score other than 0; and it
  gets the score 0 when the analysis is not cancelled before the batch of one of its
  positions on the path has run.
\<close>

theorem C9_few_neighbours_score_zero:
  assumes "distinct (map fst graph)"
    and "k < length pathNodes"
    and "card (neighborSet graph (pathNodes ! k)) < 2"
  shows "(map_of (calculateClusteringCoefficient graph cancelled pathNodes) (pathNodes ! k) = None \<or>
          map_of (calculateClusteringCoefficient graph cancelled pathNodes) (pathNodes ! k) = Some 0) \<and>
         ((\<forall>j. j \<le> k \<longrightarrow> \<not> cancelled j) \<longrightarrow>
          map_of (calculateClusteringCoefficient graph cancelled pathNodes) (pathNodes ! k) = Some 0)"
proof -
  let ?result = "calculateClusteringCoefficient graph cancelled pathNodes"
  from assms(2) have ne: "pathNodes \<noteq> []" by auto
  then have res: "?result = clusteringBatches graph cancelled pathNodes 0 []"
    by (simp add: calculateClusteringCoefficient_def)
  have "scoresOf graph []" by (simp add: scoresOf_def)
  from scoresOf_clusteringBatches [OF this] res have sc: "scoresOf graph ?result" by simp
  from assms(1,3) have "clusteringOfNode graph (pathNodes ! k) = 0"
    by (simp add: clusteringOfNode_few length_getNeighbors)
  with sc have zero: "map_of ?result (pathNodes ! k) = Some score \<Longrightarrow> score = 0" for score
    by (simp add: scoresOf_def)
  have first: "map_of ?result (pathNodes ! k) = None \<or> map_of ?result (pathNodes ! k) = Some 0"
    using zero by (cases "map_of ?result (pathNodes ! k)") simp_all
  have second: "map_of ?result (pathNodes ! k) = Some 0" if "\<forall>j. j \<le> k \<longrightarrow> \<not> cancelled j"
  proof -
    from clusteringBatches_reached [OF _ assms(2) that, of 0 graph "[]"] res
    have "pathNodes ! k \<in> fst ` set ?result" by simp
    then have "map_of ?result (pathNodes ! k) \<noteq> None" by (simp add: map_of_eq_None_iff del: not_None_eq)
    with first show ?thesis by simp
  qed
  from first second show ?thesis by blast
qed

theorem C9_few_neighbours_score_zero_witness:
  "distinct (map fst graphAB) \<and> 0 < length [''A.md'', ''B.md''] \<and>
   card (neighborSet graphAB ([''A.md'', ''B.md''] ! 0)) < 2 \<and>
   map_of (calculateClusteringCoefficient graphAB (\<lambda>i. False) [''A.md'', ''B.md''])
     ([''A.md'', ''B.md''] ! 0) = Some 0"
proof -
  have d: "distinct (map fst graphAB)" by (simp add: graphAB_def)
  have l: "0 < length [''A.md'', ''B.md'']" by simp
  have "neighborSet graphAB ''A.md'' = {''B.md''}"
    by (auto simp: neighborSet_def hasEdge_def edgeInfo_def graphAB_def split: if_splits)
  then have c: "card (neighborSet graphAB ([''A.md'', ''B.md''] ! 0)) < 2" by simp
  from C9_few_neighbours_score_zero [OF d l c, of "\<lambda>i. False"] d l c
  show ?thesis by simp
qed

section \<open>PageRank values (claim C8)\<close>

text \<open>
  The table of ranks is good when its keys are the nodes, in order, and every value is a
  number that is not negative.
\<close>

definition goodRanks :: "string list \<Rightarrow> Ranks \<Rightarrow> bool" where
  "goodRanks nodes ranks \<longleftrightarrow>
     map fst ranks = nodes \<and> (\<forall>v \<in> snd ` set ranks. \<exists>x. v = Num x \<and> 0 \<le> x)"

lemma goodRanks_getRank:
  assumes "goodRanks nodes ranks" and "node \<in> set nodes"
  shows "\<exists>x. getRank ranks node = Num x \<and> 0 \<le> x"
proof -
  from assms have "node \<in> fst ` set ranks" by (metis goodRanks_def set_map)
  then obtain v where v: "map_of ranks node = Some v"
    by (metis map_of_eq_None_iff not_None_eq)
  then have "(node, v) \<in> set ranks" by (rule map_of_SomeD)
  then have "v \<in> snd ` set ranks" by force
  with assms(1) obtain x where "v = Num x" "0 \<le> x" unfolding goodRanks_def by blast
  with v show ?thesis by (simp add: getRank_def)
qed

lemma goodRanks_update:
  assumes "goodRanks nodes ranks" and "node \<in> set nodes" and "0 \<le> x"
  shows "goodRanks nodes (AList.update node (Num x) ranks)"
proof -
  from assms(1) have k: "map fst ranks = nodes" by (simp add: goodRanks_def)
  with assms(2) have "node \<in> set (map fst ranks)" by simp
  then have keys: "map fst (AList.update node (Num x) ranks) = nodes"
    using k by (simp add: update_keys)
  have "snd ` set (AList.update node (Num x) ranks) \<subseteq> insert (Num x) (snd ` set ranks)"
    using set_update_subset [of node "Num x" ranks] by force
  with assms(1,3) have "\<forall>v \<in> snd ` set (AList.update node (Num x) ranks). \<exists>y. v = Num y \<and> 0 \<le> y"
    unfolding goodRanks_def by blast
  with keys show ?thesis by (simp add: goodRanks_def)
qed

lemma goodRanks_distribute:
  assumes "goodRanks nodes ranks" and "set keys \<subseteq> set nodes" and "0 \<le> a"
  shows "goodRanks nodes (distribute (Num a) keys ranks)"
  using assms
proof (induction keys arbitrary: ranks)
  case Nil
  then show ?case by simp
next
  case (Cons key keys)
  from Cons.prems have mem: "key \<in> set nodes" and sub: "set keys \<subseteq> set nodes" by simp_all
  from goodRanks_getRank [OF Cons.prems(1) mem] obtain x where
    x: "getRank ranks key = Num x" "0 \<le> x" by blast
  with Cons.prems(3) have "0 \<le> x + a" by simp
  from goodRanks_update [OF Cons.prems(1) mem this] x
  have "goodRanks nodes (AList.update key (nadd (getRank ranks key) (Num a)) ranks)" by simp
  from Cons.IH [OF this sub Cons.prems(3)] show ?case by simp
qed

lemma goodRanks_savePrevious:
  assumes "goodRanks nodes pageRank" and "goodRanks nodes prevPageRank"
    and "set ns \<subseteq> set nodes"
  shows "goodRanks nodes (fst (savePrevious ns (pageRank, prevPageRank))) \<and>
         goodRanks nodes (snd (savePrevious ns (pageRank, prevPageRank)))"
  using assms
proof (induction ns arbitrary: pageRank prevPageRank)
  case Nil
  then show ?case by simp
next
  case (Cons node ns)
  from Cons.prems have mem: "node \<in> set nodes" and sub: "set ns \<subseteq> set nodes" by simp_all
  from goodRanks_getRank [OF Cons.prems(1) mem] obtain x where
    x: "getRank pageRank node = Num x" "0 \<le> x" by blast
  have g1: "goodRanks nodes (AList.update node (Num 0) pageRank)"
    by (rule goodRanks_update [OF Cons.prems(1) mem]) simp
  have g2: "goodRanks nodes (AList.update node (getRank pageRank node) prevPageRank)"
    using goodRanks_update [OF Cons.prems(2) mem x(2)] x(1) by simp
  from Cons.IH [OF g1 g2 sub] show ?case by simp
qed

lemma goodRanks_spreadRanks:
  assumes "goodRanks nodes pageRank" and "goodRanks nodes prevPageRank"
    and "\<forall>(node, edges) \<in> set entries. node \<in> set nodes \<and> fst ` set edges \<subseteq> set nodes"
    and "0 \<le> dampingFactor"
  shows "goodRanks nodes (spreadRanks dampingFactor nodes prevPageRank entries pageRank)"
  using assms
proof (induction entries arbitrary: pageRank)
  case Nil
  then show ?case by simp
next
  case (Cons entry entries)
  obtain node edges where e: "entry = (node, edges)" by (cases entry)
  from Cons.prems(3) e have mem: "node \<in> set nodes" and tg: "fst ` set edges \<subseteq> set nodes"
    and rest: "\<forall>(node, edges) \<in> set entries. node \<in> set nodes \<and> fst ` set edges \<subseteq> set nodes"
    by simp_all
  from goodRanks_getRank [OF Cons.prems(2) mem] obtain x where
    x: "getRank prevPageRank node = Num x" "0 \<le> x" by blast
  show ?case
  proof (cases "length edges > 0")
    case True
    then have "real (length edges) \<noteq> 0" by simp
    with x have amt: "nmul (Num dampingFactor) (ndiv (getRank prevPageRank node) (Num (real (length edges))))
                 = Num (dampingFactor * (x / real (length edges)))" by simp
    have nn: "0 \<le> dampingFactor * (x / real (length edges))"
      using Cons.prems(4) x(2) by simp
    from tg have "set (map fst edges) \<subseteq> set nodes" by simp
    from goodRanks_distribute [OF Cons.prems(1) this nn]
    have "goodRanks nodes (distribute (Num (dampingFactor * (x / real (length edges)))) (map fst edges) pageRank)" .
    from Cons.IH [OF this Cons.prems(2) rest Cons.prems(4)] e True amt show ?thesis
      by (simp add: Let_def)
  next
    case False
    from mem have "nodes \<noteq> []" by auto
    then have "real (length nodes) \<noteq> 0" by simp
    with x have amt: "nmul (Num dampingFactor) (ndiv (getRank prevPageRank node) (Num (real (length nodes))))
                 = Num (dampingFactor * (x / real (length nodes)))" by simp
    have nn: "0 \<le> dampingFactor * (x / real (length nodes))"
      using Cons.prems(4) x(2) by simp
    from goodRanks_distribute [OF Cons.prems(1) subset_refl nn]
    have "goodRanks nodes (distribute (Num (dampingFactor * (x / real (length nodes)))) nodes pageRank)" .
    from Cons.IH [OF this Cons.prems(2) rest Cons.prems(4)] e False amt show ?thesis
      by (simp add: Let_def)
  qed
qed

lemma goodRanks_iterateRanks:
  assumes "goodRanks (map fst graph) pageRank" and "goodRanks (map fst graph) prevPageRank"
    and "graphClosed graph" and "0 \<le> dampingFactor" and "dampingFactor \<le> 1"
  shows "goodRanks (map fst graph)
           (iterateRanks left dampingFactor tolerance graph (pageRank, prevPageRank))"
  using assms(1,2)
proof (induction left arbitrary: pageRank prevPageRank)
  case 0
  then show ?case by simp
next
  case (Suc left)
  let ?nodes = "map fst graph"
  obtain pageRank1 prevPageRank1 where
    sp: "savePrevious ?nodes (pageRank, prevPageRank) = (pageRank1, prevPageRank1)"
    by (cases "savePrevious ?nodes (pageRank, prevPageRank)")
  from goodRanks_savePrevious [OF Suc.prems subset_refl] sp
  have g1: "goodRanks ?nodes pageRank1" and p1: "goodRanks ?nodes prevPageRank1" by simp_all
  have entries: "\<forall>(node, edges) \<in> set graph. node \<in> set ?nodes \<and> fst ` set edges \<subseteq> set ?nodes"
  proof (clarify, intro conjI)
    fix node edges assume m: "(node, edges) \<in> set graph"
    then show "node \<in> set ?nodes" by force
    from m have "fst ` set edges \<subseteq> allTargets graph" unfolding allTargets_def by blast
    with assms(3) show "fst ` set edges \<subseteq> set ?nodes" by (auto simp: graphClosed_iff)
  qed
  let ?pr2 = "spreadRanks dampingFactor ?nodes prevPageRank1 graph pageRank1"
  have g2: "goodRanks ?nodes ?pr2"
    by (rule goodRanks_spreadRanks [OF g1 p1 entries assms(4)])
  let ?base = "ndiv (Num (1 - dampingFactor)) (Num (real (length ?nodes)))"
  let ?pr3 = "distribute ?base ?nodes ?pr2"
  have g3: "goodRanks ?nodes ?pr3"
  proof (cases "?nodes = []")
    case True
    then show ?thesis using g2 by simp
  next
    case False
    then have "real (length ?nodes) \<noteq> 0" by simp
    then have b: "?base = Num ((1 - dampingFactor) / real (length ?nodes))" by simp
    have "0 \<le> (1 - dampingFactor) / real (length ?nodes)" using assms(5) by simp
    from goodRanks_distribute [OF g2 subset_refl this] b show ?thesis by simp
  qed
  have unfold: "iterateRanks (Suc left) dampingFactor tolerance graph (pageRank, prevPageRank)
                  = (if nless (rankDifference ?nodes ?pr3 prevPageRank1) (Num tolerance)
                     then ?pr3
                     else iterateRanks left dampingFactor tolerance graph (?pr3, prevPageRank1))"
    using sp by (simp add: Let_def del: ndiv.simps)
  show ?case unfolding unfold using Suc.IH [OF g3 p1] g3 by (simp del: ndiv.simps)
qed

lemma fold_update_fresh:
  "distinct ns \<Longrightarrow> set ns \<inter> fst ` set acc = {} \<Longrightarrow>
   fold (\<lambda>node ranks. AList.update node v ranks) ns acc = acc @ map (\<lambda>node. (node, v)) ns"
proof (induction ns arbitrary: acc)
  case Nil
  then show ?case by simp
next
  case (Cons n ns)
  from Cons.prems have "n \<notin> fst ` set acc" by auto
  then have u: "AList.update n v acc = acc @ [(n, v)]"
    by (induction acc) auto
  from Cons.prems have "distinct ns" "set ns \<inter> fst ` set (acc @ [(n, v)]) = {}" by auto
  from Cons.IH [OF this] u show ?case by simp
qed

lemma goodRanks_initialRanks:
  assumes "distinct nodes"
  shows "goodRanks nodes (initialRanks nodes)"
proof (cases "nodes = []")
  case True
  then show ?thesis by (simp add: initialRanks_def goodRanks_def)
next
  case False
  then have "real (length nodes) \<noteq> 0" by simp
  then have v: "ndiv (Num 1) (Num (real (length nodes))) = Num (1 / real (length nodes))" by simp
  from fold_update_fresh [OF assms, of "[]" "Num (1 / real (length nodes))"] v
  have "initialRanks nodes = map (\<lambda>node. (node, Num (1 / real (length nodes)))) nodes"
    by (simp add: initialRanks_def)
  then show ?thesis by (auto simp: goodRanks_def comp_def)
qed

lemma mathMax_numbers:
  assumes "vs \<noteq> []" and "\<forall>v \<in> set vs. \<exists>x. v = Num x"
  shows "\<exists>m. mathMax vs = Some (Num m) \<and> Num m \<in> set vs \<and> (\<forall>x. Num x \<in> set vs \<longrightarrow> x \<le> m)"
  using assms
proof (induction vs)
  case Nil
  then show ?case by simp
next
  case (Cons v vs)
  from Cons.prems(2) obtain x where x: "v = Num x" by auto
  show ?case
  proof (cases "vs = []")
    case True
    with x show ?thesis by simp
  next
    case False
    from Cons.prems(2) have "\<forall>v \<in> set vs. \<exists>x. v = Num x" by simp
    from Cons.IH [OF False this] obtain m where
      m: "mathMax vs = Some (Num m)" "Num m \<in> set vs" "\<forall>y. Num y \<in> set vs \<longrightarrow> y \<le> m"
      by blast
    have r: "mathMax (v # vs) = Some (Num (max x m))" using x m(1) by simp
    have mem: "Num (max x m) \<in> set (v # vs)"
      using x m(2) by (cases "x \<le> m") (simp_all add: max_def)
    have ub: "\<forall>y. Num y \<in> set (v # vs) \<longrightarrow> y \<le> max x m"
      using x m(3) by auto
    from r mem ub show ?thesis by blast
  qed
qed

lemma fold_divide:
  assumes "distinct ns" and "set ns \<subseteq> fst ` set ranks"
  shows "map fst (fold (\<lambda>node r. AList.update node (ndiv (getRank r node) d) r) ns ranks) = map fst ranks \<and>
         (\<forall>k. map_of (fold (\<lambda>node r. AList.update node (ndiv (getRank r node) d) r) ns ranks) k
               = (if k \<in> set ns then Some (ndiv (getRank ranks k) d) else map_of ranks k))"
  using assms
proof (induction ns arbitrary: ranks)
  case Nil
  then show ?case by simp
next
  case (Cons n ns)
  let ?r1 = "AList.update n (ndiv (getRank ranks n) d) ranks"
  from Cons.prems have n: "n \<in> fst ` set ranks" and nn: "n \<notin> set ns" and d: "distinct ns"
    and sub: "set ns \<subseteq> fst ` set ranks" by auto
  from n have k1: "map fst ?r1 = map fst ranks" by (simp add: update_keys)
  then have "fst ` set ?r1 = fst ` set ranks" by (rule same_keys_set)
  with sub have sub1: "set ns \<subseteq> fst ` set ?r1" by simp
  from Cons.IH [OF d sub1]
  have ih: "map fst (fold (\<lambda>node r. AList.update node (ndiv (getRank r node) d) r) ns ?r1) = map fst ?r1"
    "\<And>k. map_of (fold (\<lambda>node r. AList.update node (ndiv (getRank r node) d) r) ns ?r1) k
               = (if k \<in> set ns then Some (ndiv (getRank ?r1 k) d) else map_of ?r1 k)"
    by simp_all
  have g: "getRank ?r1 k = getRank ranks k" if "k \<noteq> n" for k
    using that by (simp add: getRank_def update_conv')
  show ?case
  proof (intro conjI allI)
    show "map fst (fold (\<lambda>node r. AList.update node (ndiv (getRank r node) d) r) (n # ns) ranks) = map fst ranks"
      using ih(1) k1 by simp
  next
    fix k
    show "map_of (fold (\<lambda>node r. AList.update node (ndiv (getRank r node) d) r) (n # ns) ranks) k
               = (if k \<in> set (n # ns) then Some (ndiv (getRank ranks k) d) else map_of ranks k)"
    proof (cases "k = n")
      case True
      with nn ih(2) [of k] show ?thesis by (simp add: update_conv')
    next
      case False
      with ih(2) [of k] g [OF False] show ?thesis by (simp add: update_conv')
    qed
  qed
qed

lemma goodRanks_normalizeRanks:
  assumes "goodRanks nodes pageRank" and "distinct nodes" and "nodes \<noteq> []"
  shows "map fst (normalizeRanks nodes pageRank) = nodes \<and>
         (\<forall>(node, v) \<in> set (normalizeRanks nodes pageRank). \<exists>x. v = Num x \<and> 0 \<le> x) \<and>
         ((\<exists>node x. (node, Num x) \<in> set (normalizeRanks nodes pageRank) \<and> x \<noteq> 0) \<longrightarrow>
          (\<exists>node. (node, Num 1) \<in> set (normalizeRanks nodes pageRank)) \<and>
          (\<forall>(node, v) \<in> set (normalizeRanks nodes pageRank). \<exists>x. v = Num x \<and> x \<le> 1))"
proof -
  let ?vs = "map snd pageRank"
  from assms(1) have keys: "map fst pageRank = nodes"
    and vals: "\<forall>v \<in> snd ` set pageRank. \<exists>x. v = Num x \<and> 0 \<le> x"
    by (simp_all add: goodRanks_def)
  from keys assms(3) have ne: "?vs \<noteq> []" by auto
  from vals have "\<forall>v \<in> set ?vs. \<exists>x. v = Num x" by auto
  from mathMax_numbers [OF ne this] obtain m where
    m: "mathMax ?vs = Some (Num m)" "Num m \<in> set ?vs" "\<forall>x. Num x \<in> set ?vs \<longrightarrow> x \<le> m"
    by blast
  from keys assms(2) have dk: "distinct (map fst pageRank)" by simp
  have entry: "\<exists>x. v = Num x \<and> 0 \<le> x \<and> x \<le> m \<and> getRank pageRank k = Num x"
    if "(k, v) \<in> set pageRank" for k v
  proof -
    from that have "v \<in> snd ` set pageRank" by force
    with vals obtain x where x: "v = Num x" "0 \<le> x" by blast
    from that x have "Num x \<in> set ?vs" by force
    with m(3) have "x \<le> m" by blast
    moreover from dk that have "map_of pageRank k = Some v" by (rule map_of_is_SomeI)
    ultimately show ?thesis using x by (simp add: getRank_def)
  qed
  show ?thesis
  proof (cases "m > 0")
    case False
    then have same: "normalizeRanks nodes pageRank = pageRank"
      using m(1) by (simp add: normalizeRanks_def)
    have zero: "x = 0" if "(k, Num x) \<in> set pageRank" for k x
      using entry [OF that] False by auto
    have "\<forall>(node, v) \<in> set pageRank. \<exists>x. v = Num x \<and> 0 \<le> x"
      using entry by blast
    with keys zero show ?thesis unfolding same by blast
  next
    case True
    let ?r = "fold (\<lambda>node ranks. AList.update node (ndiv (getRank ranks node) (Num m)) ranks)
                nodes pageRank"
    have res: "normalizeRanks nodes pageRank = ?r"
      using m(1) True by (simp add: normalizeRanks_def)
    from keys have sub: "set nodes \<subseteq> fst ` set pageRank" by (metis set_map subset_refl)
    from fold_divide [OF assms(2) sub, of "Num m"]
    have rk: "map fst ?r = map fst pageRank"
      and rv: "\<And>k. map_of ?r k = (if k \<in> set nodes then Some (ndiv (getRank pageRank k) (Num m))
                                    else map_of pageRank k)"
      by simp_all
    from rk keys have rkeys: "map fst ?r = nodes" by simp
    with assms(2) have dr: "distinct (map fst ?r)" by simp
    have rentry: "\<exists>x. v = Num (x / m) \<and> 0 \<le> x \<and> x \<le> m" if "(k, v) \<in> set ?r" for k v
    proof -
      from that have "k \<in> set (map fst ?r)" by force
      with rkeys have kn: "k \<in> set nodes" by simp
      with keys have "k \<in> fst ` set pageRank" by (metis set_map)
      then obtain v0 where v0: "(k, v0) \<in> set pageRank" by force
      from entry [OF this] obtain x where
        x: "0 \<le> x" "x \<le> m" "getRank pageRank k = Num x" by blast
      from dr that have "map_of ?r k = Some v" by (rule map_of_is_SomeI)
      with rv [of k] kn x(3) True have "v = Num (x / m)" by simp
      with x show ?thesis by blast
    qed
    have nonneg: "\<forall>(node, v) \<in> set ?r. \<exists>x. v = Num x \<and> 0 \<le> x"
    proof (clarify)
      fix k v assume "(k, v) \<in> set ?r"
      from rentry [OF this] obtain x where "v = Num (x / m)" "0 \<le> x" "x \<le> m" by blast
      with True show "\<exists>x. v = Num x \<and> 0 \<le> x" by simp
    qed
    have le1: "\<forall>(node, v) \<in> set ?r. \<exists>x. v = Num x \<and> x \<le> 1"
    proof (clarify)
      fix k v assume "(k, v) \<in> set ?r"
      from rentry [OF this] obtain x where "v = Num (x / m)" "0 \<le> x" "x \<le> m" by blast
      with True show "\<exists>x. v = Num x \<and> x \<le> 1" by simp
    qed
    have one: "\<exists>node. (node, Num 1) \<in> set ?r"
    proof -
      from m(2) obtain k where k: "(k, Num m) \<in> set pageRank" by force
      then have kn: "k \<in> set nodes" using keys by force
      from dk k have "map_of pageRank k = Some (Num m)" by (rule map_of_is_SomeI)
      then have "getRank pageRank k = Num m" by (simp add: getRank_def)
      with rv [of k] kn True have "map_of ?r k = Some (Num 1)" by simp
      then have "(k, Num 1) \<in> set ?r" by (rule map_of_SomeD)
      then show ?thesis ..
    qed
    from rkeys nonneg le1 one show ?thesis unfolding res by blast
  qed
qed

text \<open>
  On a non-empty graph in which the keys are distinct and every edge target has its own
  entry, and with a damping factor from 0 to 1, whatever the iteration bound and the
  tolerance, every value that \<open>calculatePageRank\<close> returns is a number that is not
  negative, there is one value for every node, and when not all values are zero the
  largest is 1: some node has the value 1 and no node exceeds it. Numbers are exact
  reals in this model.
\<close>

theorem pageRank_on_closed_graph:
  assumes "graph \<noteq> []" and "distinct (map fst graph)" and "graphClosed graph"
    and "0 \<le> dampingFactor" and "dampingFactor \<le> 1"
  shows "map fst (calculatePageRank graph dampingFactor iterations tolerance) = map fst graph \<and>
         (\<forall>(node, v) \<in> set (calculatePageRank graph dampingFactor iterations tolerance).
            \<exists>x. v = Num x \<and> 0 \<le> x) \<and>
         ((\<exists>node x. (node, Num x) \<in> set (calculatePageRank graph dampingFactor iterations tolerance)
                    \<and> x \<noteq> 0) \<longrightarrow>
          (\<exists>node. (node, Num 1) \<in> set (calculatePageRank graph dampingFactor iterations tolerance)) \<and>
          (\<forall>(node, v) \<in> set (calculatePageRank graph dampingFactor iterations tolerance).
             \<exists>x. v = Num x \<and> x \<le> 1))"
proof -
  let ?nodes = "map fst graph"
  have init: "goodRanks ?nodes (initialRanks ?nodes)"
    by (rule goodRanks_initialRanks [OF assms(2)])
  have "goodRanks ?nodes
          (iterateRanks iterations dampingFactor tolerance graph
             (initialRanks ?nodes, initialRanks ?nodes))"
    by (rule goodRanks_iterateRanks [OF init init assms(3,4,5)])
  moreover from assms(1) have "?nodes \<noteq> []" by simp
  ultimately show ?thesis
    unfolding calculatePageRank_def
    by (rule goodRanks_normalizeRanks [OF _ assms(2)])
qed

theorem pageRank_on_closed_graph_example:
  "graphAB \<noteq> [] \<and> distinct (map fst graphAB) \<and> graphClosed graphAB \<and>
   (0 :: real) \<le> 85 / 100 \<and> (85 / 100 :: real) \<le> 1 \<and>
   calculatePageRank graphAB (85 / 100) 50 (1 / 10000) = [(''A.md'', Num 1), (''B.md'', Num 1)] \<and>
   map fst (calculatePageRank graphAB (85 / 100) 50 (1 / 10000)) = map fst graphAB \<and>
   (\<exists>node. (node, Num 1) \<in> set (calculatePageRank graphAB (85 / 100) 50 (1 / 10000)))"
proof -
  have h1: "graphAB \<noteq> []" by (simp add: graphAB_def)
  have h2: "distinct (map fst graphAB)" by (simp add: graphAB_def)
  have h3: "graphClosed graphAB" by (simp add: graphClosed_def graphAB_def)
  have h4: "(0 :: real) \<le> 85 / 100" by simp
  have h5: "(85 / 100 :: real) \<le> 1" by simp
  have e: "calculatePageRank graphAB (85 / 100) 50 (1 / 10000)
             = [(''A.md'', Num 1), (''B.md'', Num 1)]"
    by (simp add: calculatePageRank_def graphAB_def initialRanks_def normalizeRanks_def
          getRank_def rankDifference_def Let_def eval_nat_numeral)
  then have nz: "\<exists>node x. (node, Num x) \<in> set (calculatePageRank graphAB (85 / 100) 50 (1 / 10000))
                    \<and> x \<noteq> 0"
    by (intro exI [of _ "''A.md''"] exI [of _ 1]) simp
  from pageRank_on_closed_graph [OF h1 h2 h3 h4 h5, of 50 "1 / 10000"] nz
  have "map fst (calculatePageRank graphAB (85 / 100) 50 (1 / 10000)) = map fst graphAB"
    and "\<exists>node. (node, Num 1) \<in> set (calculatePageRank graphAB (85 / 100) 50 (1 / 10000))"
    by blast+
  with h1 h2 h3 h4 h5 e show ?thesis by blast
qed

text \<open>
  C8 (the code does not do what the claim says): the claim is about every non-empty
  graph, and \<open>calculateHubMetrics\<close> passes the cached graph. The cache built for the
  vault with \<open>A.md\<close> alone, after \<open>B.md\<close> has appeared and \<open>A.md\<close> has been modified,
  holds the edge from \<open>A.md\<close> to \<open>B.md\<close> and no entry for \<open>B.md\<close>. On this graph, with
  the default damping factor 0.85, 50 iterations and tolerance 0.0001,
  \<open>pageRank[neighbor] += ...\<close> reads a property that is not there, so the value of
  \<open>B.md\<close> is \<open>NaN\<close> in every iteration; \<open>Math.max\<close> of the values is \<open>NaN\<close>, the test
  \<open>maxRank > 0\<close> is false and the normalisation does not run. \<open>calculatePageRank\<close>
  returns 3/20 for \<open>A.md\<close> and \<open>NaN\<close> for \<open>B.md\<close>: one value is not a number that is at
  least 0, and no value is 1 although not all values are zero.
  \<open>calculateDegreeCentrality\<close> guards the same read with \<open>|| 0\<close>: on the same graph it
  counts one incoming edge for \<open>B.md\<close>.
\<close>

theorem C8_pageRank_nan_on_missing_entry:
  "cachedGraph (updateGraphCache DEFAULT_SETTINGS [noteA, noteB] 2 noteA Modify
                  \<lparr> cachedGraph = Some [(''A.md'', [])], lastCacheTime = 1 \<rparr>)
     = Some danglingGraph \<and>
   danglingGraph \<noteq> [] \<and>
   calculatePageRank danglingGraph (85 / 100) 50 (1 / 10000)
     = [(''A.md'', Num (3 / 20)), (''B.md'', NaN)] \<and>
   calculateDegreeCentrality danglingGraph
     = ([(''A.md'', 0), (''B.md'', 1)], [(''A.md'', 1)], [(''A.md'', 1)])"
proof -
  have c: "cachedGraph (updateGraphCache DEFAULT_SETTINGS [noteA, noteB] 2 noteA Modify
                  \<lparr> cachedGraph = Some [(''A.md'', [])], lastCacheTime = 1 \<rparr>)
             = Some danglingGraph"
    by code_simp
  have n: "danglingGraph \<noteq> []" by (simp add: danglingGraph_def)
  have p: "calculatePageRank danglingGraph (85 / 100) 50 (1 / 10000)
             = [(''A.md'', Num (3 / 20)), (''B.md'', NaN)]"
    by (simp add: calculatePageRank_def danglingGraph_def initialRanks_def normalizeRanks_def
          getRank_def rankDifference_def Let_def eval_nat_numeral)
  have d: "calculateDegreeCentrality danglingGraph
             = ([(''A.md'', 0), (''B.md'', 1)], [(''A.md'', 1)], [(''A.md'', 1)])"
    by (simp add: calculateDegreeCentrality_def danglingGraph_def getCount_def Let_def)
  from c n p d show ?thesis by blast
qed

end
